theory Spec2Isabelle
  imports Main "HOL-Library.Word" "HOL-Library.Sublist" "HOL-Library.Multiset"
begin

section \<open>Strings\<close>

text \<open>
  A JavaScript string is a sequence of UTF-16 code units. Every character the reader
  looks at (the separators, white space, the CJK characters of the default chapter
  pattern) lies in the Basic Multilingual Plane and is one code unit.
\<close>

type_synonym jsstring = "16 word list"

definition js :: "string \<Rightarrow> jsstring" where
  "js s = map of_char s"

text \<open>
  \<open>String.prototype.trim\<close> removes WhiteSpace and LineTerminator code units from both ends
  (ECMA-262: TAB, VT, FF, SP, NBSP, ZWNBSP, the space separators, LF, CR, LS, PS).
\<close>

definition isWhiteSpace :: "16 word \<Rightarrow> bool" where
  "isWhiteSpace c \<longleftrightarrow>
     c \<in> {0x09, 0x0A, 0x0B, 0x0C, 0x0D, 0x20, 0xA0, 0x1680, 0x2028, 0x2029, 0x202F,
          0x205F, 0x3000, 0xFEFF}
     \<or> (0x2000 \<le> c \<and> c \<le> 0x200A)"

definition trim :: "jsstring \<Rightarrow> jsstring" where
  "trim s = rev (dropWhile isWhiteSpace (rev (dropWhile isWhiteSpace s)))"

text \<open>\<open>s.includes(t)\<close>: \<open>t\<close> occurs in \<open>s\<close> as a contiguous run of code units.\<close>

definition str_includes :: "jsstring \<Rightarrow> jsstring \<Rightarrow> bool" where
  "str_includes s t \<longleftrightarrow> sublist t s"

text \<open>\<open>s.endsWith(t)\<close>.\<close>

definition endsWith :: "jsstring \<Rightarrow> jsstring \<Rightarrow> bool" where
  "endsWith s t \<longleftrightarrow> length t \<le> length s \<and> drop (length s - length t) s = t"

text \<open>
  \<open>s.split(sep)\<close> for a one-unit separator: always at least one piece, the empty string
  gives one empty piece.
\<close>

fun split :: "16 word \<Rightarrow> jsstring \<Rightarrow> jsstring list" where
  "split sep [] = [[]]"
| "split sep (c # cs) =
     (if c = sep then [] # split sep cs
      else (case split sep cs of
              [] \<Rightarrow> [[c]]
            | piece # pieces \<Rightarrow> (c # piece) # pieces))"

section \<open>Numbers\<close>

text \<open>
  A JavaScript number is a double. The numbers of the reader (line indices, the scroll
  step, times in milliseconds) are taken to be whole and are written as integers: an
  integer stands for the double of that value. Every integer up to \<open>2 ^ 53\<close> in magnitude
  is a double; the safe integers are those below it. A sum or a difference is the exact
  one rounded to the nearest double, to the one with the even mantissa when two are
  equally near: above \<open>2 ^ 53\<close> the doubles are the multiples of \<open>2 ^ (k - 53)\<close> for the
  numbers of \<open>k\<close> bits. Fractions, NaN and the infinities (a magnitude of \<open>2 ^ 1024\<close> and
  more) are outside of what is written here.
\<close>

definition safe_integer :: "int \<Rightarrow> bool" where
  "safe_integer x \<longleftrightarrow> - (2 ^ 53 - 1) \<le> x \<and> x \<le> 2 ^ 53 - 1"

fun bit_length :: "nat \<Rightarrow> nat" where
  "bit_length n = (if n = 0 then 0 else Suc (bit_length (n div 2)))"

declare bit_length.simps [simp del]

definition round_double :: "int \<Rightarrow> int" where
  "round_double x =
     (if \<bar>x\<bar> \<le> 2 ^ 53 then x
      else
        let q = 2 ^ (bit_length (nat \<bar>x\<bar>) - 53);
            m = \<bar>x\<bar> div q;
            r = \<bar>x\<bar> mod q
        in sgn x * (if 2 * r < q \<or> (2 * r = q \<and> even m) then m * q else (m + 1) * q))"

text \<open>\<open>a + b\<close> and \<open>a - b\<close> on numbers.\<close>

definition num_add :: "int \<Rightarrow> int \<Rightarrow> int" where
  "num_add a b = round_double (a + b)"

definition num_sub :: "int \<Rightarrow> int \<Rightarrow> int" where
  "num_sub a b = round_double (a - b)"

section \<open>Paths (Node's \<open>path\<close> module, POSIX flavour)\<close>

text \<open>
  \<open>getConfigPath\<close> is built from \<open>path.dirname\<close>, \<open>path.basename\<close> and \<open>path.join\<close>. They
  belong to the runtime, not to the repository, and are written here after the POSIX
  implementation of Node: scanning from the end of the string, a run of trailing
  separators is skipped and the last component is what lies before it.
\<close>

definition slash :: "16 word" where
  "slash = 0x2F"

fun join_with :: "jsstring \<Rightarrow> jsstring list \<Rightarrow> jsstring" where
  "join_with sep [] = []"
| "join_with sep [x] = x"
| "join_with sep (x # y # ys) = x @ sep @ join_with sep (y # ys)"

text \<open>
  \<open>path.dirname\<close>: the scan leaves index 0 out, so a path with no separator after its
  first code unit has the directory \<open>/\<close> (rooted) or \<open>.\<close>.
\<close>

definition path_dirname :: "jsstring \<Rightarrow> jsstring" where
  "path_dirname p =
     (if p = [] then js ''.''
      else
        let hasRoot = (hd p = slash);
            r = dropWhile (\<lambda>c. c \<noteq> slash) (dropWhile (\<lambda>c. c = slash) (rev (tl p)))
        in if r = [] then (if hasRoot then js ''/'' else js ''.'')
           else if hasRoot \<and> tl r = [] then js ''//''
           else hd p # rev (tl r))"

text \<open>
  \<open>path.basename(p, ext)\<close>: the last component, without \<open>ext\<close> when the component ends
  with it and is longer than it. The remaining branches are the corner cases of Node's
  loop: \<open>ext\<close> equal to the whole path, a path of separators only, and a component that
  is a proper end of \<open>ext\<close> (the slice then runs to the end of the path).
\<close>

definition path_basename :: "jsstring \<Rightarrow> jsstring \<Rightarrow> jsstring" where
  "path_basename p ext =
     (let r = dropWhile (\<lambda>c. c = slash) (rev p);
          trailing = takeWhile (\<lambda>c. c = slash) (rev p);
          seg = rev (takeWhile (\<lambda>c. c \<noteq> slash) r)
      in if ext \<noteq> [] \<and> length ext \<le> length p then
           (if ext = p then []
            else if r = [] then p
            else if length ext < length seg \<and> endsWith seg ext
              then take (length seg - length ext) seg
            else if length seg < length ext \<and> endsWith ext seg
              then seg @ trailing
            else seg)
         else seg)"

text \<open>
  \<open>normalizeString\<close>, component by component: empty components and \<open>.\<close> disappear,
  \<open>..\<close> removes the component before it, or stays when there is none to remove and the
  path is relative.
\<close>

fun normalizeString :: "bool \<Rightarrow> jsstring list \<Rightarrow> jsstring list \<Rightarrow> jsstring list" where
  "normalizeString allowAboveRoot res [] = res"
| "normalizeString allowAboveRoot res (seg # segs) =
     (if seg = [] \<or> seg = js ''.'' then normalizeString allowAboveRoot res segs
      else if seg = js ''..'' then
        (if res \<noteq> [] \<and> last res \<noteq> js ''..''
           then normalizeString allowAboveRoot (butlast res) segs
         else if allowAboveRoot
           then normalizeString allowAboveRoot (res @ [seg]) segs
         else normalizeString allowAboveRoot res segs)
      else normalizeString allowAboveRoot (res @ [seg]) segs)"

definition path_normalize :: "jsstring \<Rightarrow> jsstring" where
  "path_normalize p =
     (if p = [] then js ''.''
      else
        let isAbsolute = (hd p = slash);
            trailingSeparator = (last p = slash);
            q = join_with [slash] (normalizeString (\<not> isAbsolute) [] (split slash p))
        in if q = [] then
             (if isAbsolute then js ''/'' else if trailingSeparator then js ''./'' else js ''.'')
           else (if isAbsolute then [slash] else []) @ q
                @ (if trailingSeparator then [slash] else []))"

definition path_join :: "jsstring \<Rightarrow> jsstring \<Rightarrow> jsstring" where
  "path_join a b =
     (if a = [] \<and> b = [] then js ''.''
      else if a = [] then path_normalize b
      else if b = [] then path_normalize a
      else path_normalize (a @ [slash] @ b))"

text \<open>
  The paths VS Code hands over (\<open>fsPath\<close>) are absolute and normalised: a separator
  before every component, no empty component, no \<open>.\<close> and no \<open>..\<close>.
\<close>

definition plain_component :: "jsstring \<Rightarrow> bool" where
  "plain_component c \<longleftrightarrow> c \<noteq> [] \<and> c \<noteq> js ''.'' \<and> c \<noteq> js ''..''"

definition normalized_path :: "jsstring \<Rightarrow> bool" where
  "normalized_path p \<longleftrightarrow>
     (case split slash p of
        [] \<Rightarrow> False
      | first # comps \<Rightarrow> first = [] \<and> comps \<noteq> [] \<and> list_all plain_component comps)"

text \<open>
  Such a path, built from its components; and a file name without a final \<open>.txt\<close>, when
  something stands before it.
\<close>

definition absolute :: "jsstring list \<Rightarrow> jsstring" where
  "absolute comps = concat (map (\<lambda>c. slash # c) comps)"

definition strip_txt :: "jsstring \<Rightarrow> jsstring" where
  "strip_txt f =
     (if length (js ''.txt'') < length f \<and> endsWith f (js ''.txt'')
      then take (length f - length (js ''.txt'')) f else f)"

section \<open>The persisted record and the file system (bookConfig.ts)\<close>

text \<open>
  \<open>lastReadTime\<close> is a string that the code only ever produces with \<open>toISOString\<close> and only
  ever reads with \<open>new Date(s).getTime()\<close>. It is identified with what that reading gives:
  \<open>ISO t\<close> is a string that parses to the time \<open>t\<close> (milliseconds), \<open>Unparsable s\<close> one whose
  time value is NaN.

  The time of a \<open>Date\<close> is at most 8.64e15 milliseconds away from the epoch. A \<open>Date\<close> made
  from a time beyond that is invalid: its \<open>toISOString\<close> throws a \<open>RangeError\<close> (the answer
  \<open>None\<close>), and no string parses to such a time.
\<close>

datatype datestr = ISO int | Unparsable jsstring

definition validTime :: "int \<Rightarrow> bool" where
  "validTime t \<longleftrightarrow> - 8640000000000000 \<le> t \<and> t \<le> 8640000000000000"

definition toISOString :: "int \<Rightarrow> datestr option" where
  "toISOString t = (if validTime t then Some (ISO t) else None)"

record BookConfig =
  filePath :: jsstring
  fileName :: jsstring
  progress :: int
  totalLines :: int
  lastReadTime :: datestr
  chapterPattern :: "jsstring option"
  bookmarks :: "int list option"

text \<open>
  The file system, as far as the code asks it anything. A sidecar file holds either a
  text that \<open>JSON.parse\<close> turns into a \<open>BookConfig\<close> (what \<open>JSON.stringify\<close> wrote), or
  something that cannot be read or parsed, for which \<open>loadConfig\<close> answers \<open>null\<close>. (The
  source casts whatever parses to \<open>BookConfig\<close>; a JSON text of another shape is not
  considered.) \<open>dirs\<close> gives what \<open>readdir\<close> returns, in its order; \<open>stats\<close> what \<open>stat\<close>
  returns, \<open>None\<close> where it rejects; \<open>writable\<close> tells where \<open>writeFile\<close> succeeds. The
  \<open>mtime\<close> of a \<open>Stats\<close> is the time, in milliseconds, from which the \<open>Date\<close> \<open>stats.mtime\<close>
  is made.
\<close>

datatype filedata = Config BookConfig | Garbage

record Stats =
  isFile :: bool
  mtime :: int

record fsys =
  files :: "jsstring \<rightharpoonup> filedata"
  dirs :: "jsstring \<rightharpoonup> jsstring list"
  stats :: "jsstring \<rightharpoonup> Stats"
  writable :: "jsstring \<Rightarrow> bool"

definition existsSync :: "fsys \<Rightarrow> jsstring \<Rightarrow> bool" where
  "existsSync fs p \<longleftrightarrow> files fs p \<noteq> None \<or> dirs fs p \<noteq> None"

subsection \<open>BookConfigManager\<close>

definition getConfigPath :: "jsstring \<Rightarrow> jsstring" where
  "getConfigPath txtFilePath =
     (let dir = path_dirname txtFilePath;
          baseName = path_basename txtFilePath (js ''.txt'')
      in path_join dir (baseName @ js ''.json''))"

text \<open>Every failure of the read or of the parse is caught and gives \<open>null\<close>.\<close>

definition loadConfig :: "fsys \<Rightarrow> jsstring \<Rightarrow> BookConfig option" where
  "loadConfig fs txtFilePath =
     (let configPath = getConfigPath txtFilePath
      in if existsSync fs configPath then
           (case files fs configPath of
              Some (Config c) \<Rightarrow> Some c
            | _ \<Rightarrow> None)
         else None)"

text \<open>A failed write is caught, reported to the user, and answered with \<open>false\<close>.\<close>

definition saveConfig :: "fsys \<Rightarrow> BookConfig \<Rightarrow> bool \<times> fsys" where
  "saveConfig fs config =
     (let configPath = getConfigPath (filePath config)
      in if writable fs configPath
         then (True, fs\<lparr>files := (files fs)(configPath \<mapsto> Config config)\<rparr>)
         else (False, fs))"

text \<open>\<open>now\<close> is the clock reading that \<open>new Date()\<close> takes.\<close>

definition updateProgress :: "fsys \<Rightarrow> int \<Rightarrow> jsstring \<Rightarrow> int \<Rightarrow> int \<Rightarrow> fsys" where
  "updateProgress fs now txtFilePath prog nlines =
     (let config =
            (case loadConfig fs txtFilePath of
               None \<Rightarrow>
                 \<lparr>filePath = txtFilePath, fileName = path_basename txtFilePath [],
                  progress = 0, totalLines = nlines, lastReadTime = ISO now,
                  chapterPattern = None, bookmarks = None\<rparr>
             | Some c \<Rightarrow> c);
          config = config\<lparr>progress := prog, totalLines := nlines, lastReadTime := ISO now\<rparr>
      in snd (saveConfig fs config))"

text \<open>
  \<open>updateChapterPattern\<close> asks for the \<open>stat\<close> of the source before it builds a new
  record, and makes no use of the answer; a rejected \<open>stat\<close> is not caught and the call
  rejects with it.
\<close>

datatype error = StatRejected

definition updateChapterPattern :: "fsys \<Rightarrow> int \<Rightarrow> jsstring \<Rightarrow> jsstring \<Rightarrow> error + fsys" where
  "updateChapterPattern fs now txtFilePath pattern =
     (case loadConfig fs txtFilePath of
        Some c \<Rightarrow> Inr (snd (saveConfig fs (c\<lparr>chapterPattern := Some pattern\<rparr>)))
      | None \<Rightarrow>
          (case stats fs txtFilePath of
             None \<Rightarrow> Inl StatRejected
           | Some st \<Rightarrow>
               Inr (snd (saveConfig fs
                 (\<lparr>filePath = txtFilePath, fileName = path_basename txtFilePath [],
                   progress = 0, totalLines = 0, lastReadTime = ISO now,
                   chapterPattern = None, bookmarks = None\<rparr>
                  \<lparr>chapterPattern := Some pattern\<rparr>)))))"

text \<open>
  The loop of \<open>getAllBooksInDirectory\<close>. It runs inside one \<open>try\<close>: a rejected \<open>stat\<close>, or
  the \<open>RangeError\<close> of \<open>stats.mtime.toISOString()\<close> for a file without a config, ends it,
  and the books pushed so far stay.
\<close>

fun collectBooks :: "fsys \<Rightarrow> jsstring \<Rightarrow> BookConfig list \<Rightarrow> jsstring list \<Rightarrow> BookConfig list" where
  "collectBooks fs dirPath books [] = books"
| "collectBooks fs dirPath books (file # rest) =
     (if endsWith file (js ''.txt'') then
        (let txtPath = path_join dirPath file
         in case stats fs txtPath of
              None \<Rightarrow> books
            | Some st \<Rightarrow>
                if isFile st then
                  (case loadConfig fs txtPath of
                     Some c \<Rightarrow> collectBooks fs dirPath (books @ [c]) rest
                   | None \<Rightarrow>
                       (case toISOString (mtime st) of
                          None \<Rightarrow> books
                        | Some isoString \<Rightarrow>
                            collectBooks fs dirPath
                              (books @
                               [\<lparr>filePath = txtPath, fileName = file, progress = 0,
                                 totalLines = 0, lastReadTime = isoString,
                                 chapterPattern = None, bookmarks = None\<rparr>])
                              rest))
                else collectBooks fs dirPath books rest)
      else collectBooks fs dirPath books rest)"

text \<open>
  \<open>new Date(s).getTime()\<close>, \<open>None\<close> for NaN, and the comparator
  \<open>new Date(b.lastReadTime).getTime() - new Date(a.lastReadTime).getTime()\<close>, which is NaN
  as soon as one of the two times is.
\<close>

definition getTime :: "datestr \<Rightarrow> int option" where
  "getTime d =
     (case d of
        ISO t \<Rightarrow> if validTime t then Some t else None
      | Unparsable _ \<Rightarrow> None)"

definition compareBooks :: "BookConfig \<Rightarrow> BookConfig \<Rightarrow> int option" where
  "compareBooks a b =
     (case (getTime (lastReadTime b), getTime (lastReadTime a)) of
        (Some tb, Some ta) \<Rightarrow> Some (num_sub tb ta)
      | _ \<Rightarrow> None)"

text \<open>
  \<open>Array.prototype.sort\<close> belongs to the engine. ECMA-262 fixes its result only as far as
  the comparator is consistent on the values of the array: \<open>a <CF b\<close>, \<open>a =CF b\<close>, \<open>a >CF b\<close>
  stand for a result below, equal to and above zero; the comparator never gives NaN,
  \<open>=CF\<close> is reflexive, symmetric and transitive, \<open><CF\<close> and \<open>>CF\<close> are transitive. Then no
  element of the result has before it one that it is \<open><CF\<close> of. Otherwise the order is up
  to the implementation; the result is a rearrangement of the array in every case.
\<close>

definition lessCF :: "('a \<Rightarrow> 'a \<Rightarrow> int option) \<Rightarrow> 'a \<Rightarrow> 'a \<Rightarrow> bool" where
  "lessCF cmp a b \<longleftrightarrow> (case cmp a b of Some v \<Rightarrow> v < 0 | None \<Rightarrow> False)"

definition equalCF :: "('a \<Rightarrow> 'a \<Rightarrow> int option) \<Rightarrow> 'a \<Rightarrow> 'a \<Rightarrow> bool" where
  "equalCF cmp a b \<longleftrightarrow> cmp a b = Some 0"

definition greaterCF :: "('a \<Rightarrow> 'a \<Rightarrow> int option) \<Rightarrow> 'a \<Rightarrow> 'a \<Rightarrow> bool" where
  "greaterCF cmp a b \<longleftrightarrow> (case cmp a b of Some v \<Rightarrow> 0 < v | None \<Rightarrow> False)"

definition consistent :: "('a \<Rightarrow> 'a \<Rightarrow> int option) \<Rightarrow> 'a set \<Rightarrow> bool" where
  "consistent cmp S \<longleftrightarrow>
     (\<forall>a \<in> S. \<forall>b \<in> S. cmp a b \<noteq> None)
     \<and> (\<forall>a \<in> S. equalCF cmp a a)
     \<and> (\<forall>a \<in> S. \<forall>b \<in> S. equalCF cmp a b \<longrightarrow> equalCF cmp b a)
     \<and> (\<forall>a \<in> S. \<forall>b \<in> S. \<forall>c \<in> S.
           equalCF cmp a b \<and> equalCF cmp b c \<longrightarrow> equalCF cmp a c)
     \<and> (\<forall>a \<in> S. \<forall>b \<in> S. \<forall>c \<in> S.
           lessCF cmp a b \<and> lessCF cmp b c \<longrightarrow> lessCF cmp a c)
     \<and> (\<forall>a \<in> S. \<forall>b \<in> S. \<forall>c \<in> S.
           greaterCF cmp a b \<and> greaterCF cmp b c \<longrightarrow> greaterCF cmp a c)"

definition sort_contract ::
  "(('a \<Rightarrow> 'a \<Rightarrow> int option) \<Rightarrow> 'a list \<Rightarrow> 'a list) \<Rightarrow> bool" where
  "sort_contract arraySort \<longleftrightarrow>
     (\<forall>cmp xs.
        mset (arraySort cmp xs) = mset xs
        \<and> (consistent cmp (set xs) \<longrightarrow>
             sorted_wrt (\<lambda>a b. \<not> lessCF cmp b a) (arraySort cmp xs)))"

text \<open>
  One sort that keeps the contract, for the examples: insertion from the right, an
  element going behind those it is \<open>>CF\<close> of (NaN counts as zero).
\<close>

fun insert_by :: "('a \<Rightarrow> 'a \<Rightarrow> int option) \<Rightarrow> 'a \<Rightarrow> 'a list \<Rightarrow> 'a list" where
  "insert_by cmp x [] = [x]"
| "insert_by cmp x (y # ys) =
     (if greaterCF cmp x y then y # insert_by cmp x ys else x # y # ys)"

definition insertion_sort :: "('a \<Rightarrow> 'a \<Rightarrow> int option) \<Rightarrow> 'a list \<Rightarrow> 'a list" where
  "insertion_sort cmp xs = foldr (insert_by cmp) xs []"

text \<open>
  The order the comparator aims at: \<open>a\<close> may stand before \<open>b\<close> when both times parse
  and that of \<open>a\<close> is not the earlier one.
\<close>

definition newer_first :: "BookConfig \<Rightarrow> BookConfig \<Rightarrow> bool" where
  "newer_first a b \<longleftrightarrow>
     (case (getTime (lastReadTime a), getTime (lastReadTime b)) of
        (Some ta, Some tb) \<Rightarrow> tb \<le> ta
      | _ \<Rightarrow> False)"

text \<open>\<open>arraySort\<close> is the \<open>Array.prototype.sort\<close> of the engine.\<close>

definition getAllBooksInDirectory ::
  "((BookConfig \<Rightarrow> BookConfig \<Rightarrow> int option) \<Rightarrow> BookConfig list \<Rightarrow> BookConfig list)
     \<Rightarrow> fsys \<Rightarrow> jsstring \<Rightarrow> BookConfig list" where
  "getAllBooksInDirectory arraySort fs dirPath =
     (if \<not> existsSync fs dirPath then []
      else
        arraySort compareBooks
          (case dirs fs dirPath of
             None \<Rightarrow> []
           | Some entries \<Rightarrow> collectBooks fs dirPath [] entries))"

section \<open>Regular expressions\<close>

text \<open>
  \<open>new RegExp(patternStr)\<close> is the engine's parser; what it returns is written here as a
  term, and \<open>pattern.test\<close> as a search for a match of that term starting anywhere in the
  string. The pattern is built without flags: \<open>^\<close> and \<open>$\<close> hold at the two ends of the
  input only, an atom reads one code unit, and \<open>test\<close> keeps no position between calls.
\<close>

datatype regex =
    Empty
  | Bol
  | Eol
  | Atom "16 word \<Rightarrow> bool"
  | Seq regex regex
  | Alt regex regex
  | Star regex
  | Plus regex

text \<open>
  \<open>iterate n f i\<close>: the positions reached from \<open>i\<close> by repeating \<open>f\<close>, each round moving
  forward (a round that matches the empty string is dropped, as in ECMA-262). No more
  than \<open>length s - i\<close> rounds can move forward inside \<open>s\<close>, so \<open>length s\<close> rounds are all
  of them.
\<close>

fun iterate :: "nat \<Rightarrow> (nat \<Rightarrow> nat list) \<Rightarrow> nat \<Rightarrow> nat list" where
  "iterate 0 f i = [i]"
| "iterate (Suc n) f i = i # concat (map (iterate n f) (filter (\<lambda>j. i < j) (f i)))"

text \<open>\<open>ends r s i\<close>: the positions where a match of \<open>r\<close> that starts at \<open>i\<close> can end.\<close>

fun ends :: "regex \<Rightarrow> jsstring \<Rightarrow> nat \<Rightarrow> nat list" where
  "ends Empty s i = [i]"
| "ends Bol s i = (if i = 0 then [i] else [])"
| "ends Eol s i = (if i = length s then [i] else [])"
| "ends (Atom P) s i = (if i < length s \<and> P (s ! i) then [Suc i] else [])"
| "ends (Seq a b) s i = concat (map (\<lambda>j. ends b s j) (ends a s i))"
| "ends (Alt a b) s i = ends a s i @ ends b s i"
| "ends (Star a) s i = iterate (length s) (\<lambda>j. ends a s j) i"
| "ends (Plus a) s i =
     concat (map (iterate (length s) (\<lambda>j. ends a s j)) (ends a s i))"

fun test_upto :: "regex \<Rightarrow> jsstring \<Rightarrow> nat \<Rightarrow> bool" where
  "test_upto r s 0 = (ends r s 0 \<noteq> [])"
| "test_upto r s (Suc n) = (test_upto r s n \<or> ends r s (Suc n) \<noteq> [])"

definition regex_test :: "regex \<Rightarrow> jsstring \<Rightarrow> bool" where
  "regex_test r s = test_upto r s (length s)"

text \<open>
  What the search looks for: \<open>matches s r i j\<close> when \<open>r\<close> matches the code units of \<open>s\<close>
  from position \<open>i\<close> up to position \<open>j\<close>.
\<close>

inductive matches :: "jsstring \<Rightarrow> regex \<Rightarrow> nat \<Rightarrow> nat \<Rightarrow> bool" for s where
  m_Empty: "matches s Empty i i"
| m_Bol: "matches s Bol 0 0"
| m_Eol: "matches s Eol (length s) (length s)"
| m_Atom: "i < length s \<Longrightarrow> P (s ! i) \<Longrightarrow> matches s (Atom P) i (Suc i)"
| m_Seq: "matches s a i k \<Longrightarrow> matches s b k j \<Longrightarrow> matches s (Seq a b) i j"
| m_AltL: "matches s a i j \<Longrightarrow> matches s (Alt a b) i j"
| m_AltR: "matches s b i j \<Longrightarrow> matches s (Alt a b) i j"
| m_Star0: "matches s (Star a) i i"
| m_StarStep: "matches s a i k \<Longrightarrow> matches s (Star a) k j \<Longrightarrow> matches s (Star a) i j"
| m_Plus: "matches s a i k \<Longrightarrow> matches s (Star a) k j \<Longrightarrow> matches s (Plus a) i j"

text \<open>The atoms of the patterns the extension ships with.\<close>

definition chr :: "16 word \<Rightarrow> regex" where
  "chr c = Atom (\<lambda>x. x = c)"

definition any_of :: "16 word list \<Rightarrow> (16 word \<times> 16 word) list \<Rightarrow> regex" where
  "any_of cs ranges =
     Atom (\<lambda>x. List.member cs x \<or> list_ex (\<lambda>(lo, hi). lo \<le> x \<and> x \<le> hi) ranges)"

definition space_class :: regex where
  "space_class = Atom isWhiteSpace"

definition dot :: regex where
  "dot = Atom (\<lambda>x. x \<notin> {0x0A, 0x0D, 0x2028, 0x2029})"

text \<open>
  The default of \<open>aReader.defaultChapterPattern\<close>, as the source spells it, and the term
  the parser makes of it.
\<close>

definition defaultChapterPattern :: jsstring where
  "defaultChapterPattern =
     js ''^'' @ [0x7B2C] @ js ''[0-9'' @
     [0x4E00, 0x4E8C, 0x4E09, 0x56DB, 0x4E94, 0x516D, 0x4E03, 0x516B, 0x4E5D, 0x5341,
      0x767E, 0x5343] @
     js '']+['' @ [0x7AE0, 0x8282] @ js '']'' @ [0x5C] @ js ''s+.+$''"

definition defaultChapterRegex :: regex where
  "defaultChapterRegex =
     Seq Bol (Seq (chr 0x7B2C)
       (Seq (Plus (any_of [0x4E00, 0x4E8C, 0x4E09, 0x56DB, 0x4E94, 0x516D, 0x4E03, 0x516B,
                           0x4E5D, 0x5341, 0x767E, 0x5343] [(0x30, 0x39)]))
         (Seq (any_of [0x7AE0, 0x8282] [])
           (Seq (Plus space_class) (Seq (Plus dot) Eol)))))"

section \<open>The reader session (readerProvider.ts)\<close>

record Chapter =
  name :: jsstring
  line :: nat

record SearchResult =
  line :: nat
  content :: jsstring

text \<open>
  What the session hands to its collaborators: messages posted to the webview and
  notifications shown through \<open>vscode.window\<close>.
\<close>

datatype message =
    InitContent "jsstring list" int nat
  | UpdateChapters "Chapter list"
  | UpdateScroll int
  | SearchResults "SearchResult list" jsstring
  | InfoNotFound jsstring
  | InfoFound nat
  | InfoChapters nat
  | InfoNoChapters
  | ErrorPattern
  | ErrorRead

record TxtReaderProvider =
  panel :: bool
  lines :: "jsstring list"
  currentLine :: int
  chapters :: "Chapter list"
  fsPath :: jsstring
  bookConfig :: "BookConfig option"
  saveProgressTimer :: "nat option"
  outbox :: "message list"

text \<open>The constructor: the field initialisers of the class.\<close>

definition newTxtReaderProvider :: "jsstring \<Rightarrow> TxtReaderProvider" where
  "newTxtReaderProvider uri =
     \<lparr>panel = False, lines = [], currentLine = 0, chapters = [], fsPath = uri,
      bookConfig = None, saveProgressTimer = None, outbox = []\<rparr>"

definition postMessage :: "message \<Rightarrow> TxtReaderProvider \<Rightarrow> TxtReaderProvider" where
  "postMessage m s = (if panel s then s\<lparr>outbox := outbox s @ [m]\<rparr> else s)"

definition showMessage :: "message \<Rightarrow> TxtReaderProvider \<Rightarrow> TxtReaderProvider" where
  "showMessage m s = s\<lparr>outbox := outbox s @ [m]\<rparr>"

definition updateWebview :: "TxtReaderProvider \<Rightarrow> TxtReaderProvider" where
  "updateWebview s = postMessage (UpdateScroll (currentLine s)) s"

subsection \<open>Navigation\<close>

text \<open>
  \<open>step\<close> is the \<open>aReader.scrollStep\<close> setting, read on every call. \<open>lines.length\<close> is below
  \<open>2 ^ 32\<close> for every array, so \<open>lines.length - 1\<close> is exact.
\<close>

definition scrollUp :: "int \<Rightarrow> TxtReaderProvider \<Rightarrow> TxtReaderProvider" where
  "scrollUp step s = updateWebview (s\<lparr>currentLine := max 0 (num_sub (currentLine s) step)\<rparr>)"

definition scrollDown :: "int \<Rightarrow> TxtReaderProvider \<Rightarrow> TxtReaderProvider" where
  "scrollDown step s =
     updateWebview
       (s\<lparr>currentLine := min (int (length (lines s)) - 1) (num_add (currentLine s) step)\<rparr>)"

definition jumpToLine :: "int \<Rightarrow> TxtReaderProvider \<Rightarrow> TxtReaderProvider" where
  "jumpToLine n s =
     (if n \<ge> 0 \<and> n < int (length (lines s))
      then updateWebview (s\<lparr>currentLine := n\<rparr>)
      else s)"

subsection \<open>Loading and showing\<close>

text \<open>
  \<open>file\<close> is the decoded content of the document, \<open>None\<close> when it cannot be read (the
  decoding itself never fails). The lines are the pieces between line feeds.
\<close>

definition loadFile :: "jsstring option \<Rightarrow> TxtReaderProvider \<Rightarrow> TxtReaderProvider" where
  "loadFile file s =
     (case file of
        None \<Rightarrow> showMessage ErrorRead s
      | Some text \<Rightarrow> s\<lparr>lines := split 0x0A text\<rparr>)"

subsection \<open>Chapters\<close>

fun scan_from :: "regex \<Rightarrow> jsstring list \<Rightarrow> nat \<Rightarrow> Chapter list" where
  "scan_from pattern [] i = []"
| "scan_from pattern (l # ls) i =
     (let line = trim l
      in (if regex_test pattern line then [\<lparr>name = line, Chapter.line = i\<rparr>] else [])
         @ scan_from pattern ls (Suc i))"

text \<open>
  \<open>RegExp\<close> is the parser of the engine, \<open>None\<close> where it throws; \<open>defaultPattern\<close> is the
  setting \<open>aReader.defaultChapterPattern\<close>. A pattern of the document that is missing or
  empty gives way to the setting.
\<close>

definition activePattern :: "jsstring \<Rightarrow> TxtReaderProvider \<Rightarrow> jsstring" where
  "activePattern defaultPattern s =
     (case bookConfig s of
        None \<Rightarrow> defaultPattern
      | Some c \<Rightarrow>
          (case chapterPattern c of
             None \<Rightarrow> defaultPattern
           | Some p \<Rightarrow> if p = [] then defaultPattern else p))"

definition scanChapters ::
  "(jsstring \<Rightarrow> regex option) \<Rightarrow> jsstring \<Rightarrow> TxtReaderProvider \<Rightarrow> TxtReaderProvider" where
  "scanChapters RegExp defaultPattern s =
     (let s = s\<lparr>chapters := []\<rparr>;
          patternStr = activePattern defaultPattern s
      in case RegExp patternStr of
           None \<Rightarrow> showMessage ErrorPattern s
         | Some pattern \<Rightarrow> s\<lparr>chapters := scan_from pattern (lines s) 0\<rparr>)"

definition sendChaptersToWebview :: "TxtReaderProvider \<Rightarrow> TxtReaderProvider" where
  "sendChaptersToWebview s = postMessage (UpdateChapters (chapters s)) s"

definition reloadChapters ::
  "(jsstring \<Rightarrow> regex option) \<Rightarrow> jsstring \<Rightarrow> TxtReaderProvider \<Rightarrow> TxtReaderProvider" where
  "reloadChapters RegExp defaultPattern s =
     (let s = scanChapters RegExp defaultPattern s;
          s = sendChaptersToWebview s
      in showMessage (InfoChapters (length (chapters s))) s)"

definition showChapters :: "TxtReaderProvider \<Rightarrow> TxtReaderProvider" where
  "showChapters s =
     (if length (chapters s) = 0 then showMessage InfoNoChapters s
      else sendChaptersToWebview s)"

definition sendInitialContent :: "TxtReaderProvider \<Rightarrow> TxtReaderProvider" where
  "sendInitialContent s =
     (if panel s then
        sendChaptersToWebview
          (postMessage (InitContent (lines s) (currentLine s) (length (lines s))) s)
      else s)"

definition show_panel ::
  "(jsstring \<Rightarrow> regex option) \<Rightarrow> jsstring \<Rightarrow> fsys \<Rightarrow> jsstring option
     \<Rightarrow> TxtReaderProvider \<Rightarrow> TxtReaderProvider" where
  "show_panel RegExp defaultPattern fs file s =
     (let s = loadFile file s;
          s = s\<lparr>bookConfig := loadConfig fs (fsPath s)\<rparr>;
          s = (case bookConfig s of
                 Some c \<Rightarrow> s\<lparr>currentLine := progress c\<rparr>
               | None \<Rightarrow> s);
          s = s\<lparr>panel := True\<rparr>;
          s = scanChapters RegExp defaultPattern s
      in sendInitialContent s)"

subsection \<open>Search\<close>

fun search_from :: "jsstring \<Rightarrow> jsstring list \<Rightarrow> nat \<Rightarrow> SearchResult list" where
  "search_from searchTerm [] i = []"
| "search_from searchTerm (l # ls) i =
     (if str_includes l searchTerm then [\<lparr>SearchResult.line = i, content = trim l\<rparr>] else [])
     @ search_from searchTerm ls (Suc i)"

text \<open>The array \<open>results\<close> that \<open>search\<close> builds.\<close>

definition search_results :: "jsstring \<Rightarrow> TxtReaderProvider \<Rightarrow> SearchResult list" where
  "search_results searchTerm s = search_from searchTerm (lines s) 0"

definition search :: "jsstring \<Rightarrow> TxtReaderProvider \<Rightarrow> TxtReaderProvider" where
  "search searchTerm s =
     (let results = search_results searchTerm s;
          s = postMessage (SearchResults results searchTerm) s
      in if length results = 0 then showMessage (InfoNotFound searchTerm) s
         else showMessage (InfoFound (length results)) s)"

section \<open>Timers and the life of a session\<close>

text \<open>
  One handler runs at a time. The world around the provider is the disk, a clock, and
  the timers that \<open>setTimeout\<close> has set and that have neither fired nor been cleared.
  \<open>writes\<close> is a history for the statements below: the calls of
  \<open>BookConfigManager.updateProgress\<close> so far, with path, progress and line count.
\<close>

record world =
  reader :: TxtReaderProvider
  disk :: fsys
  clock :: int
  pending :: "(nat \<times> int) list"
  nextHandle :: nat
  writes :: "(jsstring \<times> int \<times> int) list"

definition setTimeout :: "int \<Rightarrow> world \<Rightarrow> nat \<times> world" where
  "setTimeout delay w =
     (nextHandle w,
      w\<lparr>pending := pending w @ [(nextHandle w, clock w + delay)],
        nextHandle := Suc (nextHandle w)\<rparr>)"

definition clearTimeout :: "nat \<Rightarrow> world \<Rightarrow> world" where
  "clearTimeout h w = w\<lparr>pending := filter (\<lambda>t. fst t \<noteq> h) (pending w)\<rparr>"

text \<open>
  \<open>saveProgressNow\<close> reads \<open>currentLine\<close> and \<open>lines.length\<close> when it is called; the read
  and the write behind it are taken as one step.
\<close>

definition saveProgressNow :: "world \<Rightarrow> world" where
  "saveProgressNow w =
     (let r = reader w
      in w\<lparr>disk := updateProgress (disk w) (clock w) (fsPath r) (currentLine r)
                     (int (length (lines r))),
           writes := writes w @ [(fsPath r, currentLine r, int (length (lines r)))]\<rparr>)"

text \<open>The private \<open>updateProgress(line)\<close> of the provider.\<close>

definition reportProgress :: "int \<Rightarrow> world \<Rightarrow> world" where
  "reportProgress n w =
     (let w = w\<lparr>reader := (reader w)\<lparr>currentLine := n\<rparr>\<rparr>;
          w = (case saveProgressTimer (reader w) of
                 Some h \<Rightarrow> clearTimeout h w
               | None \<Rightarrow> w);
          (h, w) = setTimeout 2000 w
      in w\<lparr>reader := (reader w)\<lparr>saveProgressTimer := Some h\<rparr>\<rparr>)"

text \<open>
  Time passes: the timers that are due fire, oldest first, each at its own time. The
  only callback ever set is \<open>saveProgressNow\<close>.
\<close>

definition fire :: "nat \<times> int \<Rightarrow> world \<Rightarrow> world" where
  "fire t w = saveProgressNow (w\<lparr>clock := snd t\<rparr>)"

definition elapse :: "nat \<Rightarrow> world \<Rightarrow> world" where
  "elapse d w =
     (let t = clock w + int d;
          due = filter (\<lambda>p. snd p \<le> t) (pending w);
          w = w\<lparr>pending := filter (\<lambda>p. \<not> snd p \<le> t) (pending w)\<rparr>
      in (fold fire due w)\<lparr>clock := t\<rparr>)"

text \<open>The handler of \<open>onDidDispose\<close>.\<close>

definition onDidDispose :: "world \<Rightarrow> world" where
  "onDidDispose w =
     (let w = saveProgressNow w;
          w = (case saveProgressTimer (reader w) of
                 Some h \<Rightarrow> clearTimeout h w
               | None \<Rightarrow> w)
      in w\<lparr>reader := (reader w)\<lparr>panel := False\<rparr>\<rparr>)"

text \<open>The messages of the webview and the handler of \<open>onDidReceiveMessage\<close>.\<close>

datatype command =
    CmdScrollUp
  | CmdScrollDown
  | CmdJumpToLine int
  | CmdSearch jsstring
  | CmdJumpToChapter int
  | CmdRequestChapters
  | CmdUpdateProgress int
  | CmdRequestInitialContent

definition onDidReceiveMessage :: "int \<Rightarrow> command \<Rightarrow> world \<Rightarrow> world" where
  "onDidReceiveMessage step c w =
     (case c of
        CmdScrollUp \<Rightarrow> w\<lparr>reader := scrollUp step (reader w)\<rparr>
      | CmdScrollDown \<Rightarrow> w\<lparr>reader := scrollDown step (reader w)\<rparr>
      | CmdJumpToLine n \<Rightarrow> w\<lparr>reader := jumpToLine n (reader w)\<rparr>
      | CmdSearch text \<Rightarrow> w\<lparr>reader := search text (reader w)\<rparr>
      | CmdJumpToChapter n \<Rightarrow> w\<lparr>reader := jumpToLine n (reader w)\<rparr>
      | CmdRequestChapters \<Rightarrow> w\<lparr>reader := sendChaptersToWebview (reader w)\<rparr>
      | CmdUpdateProgress n \<Rightarrow> reportProgress n w
      | CmdRequestInitialContent \<Rightarrow> w\<lparr>reader := sendInitialContent (reader w)\<rparr>)"

text \<open>
  A session after it is opened: messages of the webview, time passing, and the panel
  being closed, in any order.
\<close>

datatype event = Receive command | Wait nat | Dispose

fun run :: "int \<Rightarrow> event list \<Rightarrow> world \<Rightarrow> world" where
  "run step [] w = w"
| "run step (e # es) w =
     run step es
       (case e of
          Receive c \<Rightarrow> onDidReceiveMessage step c w
        | Wait d \<Rightarrow> elapse d w
        | Dispose \<Rightarrow> onDidDispose w)"

text \<open>
  Between handlers the provider is in one of two states: no timer is pending, or the one
  timer its field names is pending and not yet due. Every handler keeps it so.
\<close>

definition calm :: "world \<Rightarrow> bool" where
  "calm w \<longleftrightarrow>
     (case pending w of
        [] \<Rightarrow> True
      | [t] \<Rightarrow> saveProgressTimer (reader w) = Some (fst t) \<and> clock w < snd t
      | _ \<Rightarrow> False)"


section \<open>Example data\<close>

text \<open>The parser, as far as the shipped pattern goes.\<close>

definition shippedRegExp :: "jsstring \<Rightarrow> regex option" where
  "shippedRegExp p = (if p = defaultChapterPattern then Some defaultChapterRegex else None)"

text \<open>
  A book that has shrunk since it was last read: the sidecar remembers line 100, the
  file now has two lines.
\<close>

definition stale_disk :: fsys where
  "stale_disk =
     \<lparr>files = [js ''/books/a.json'' \<mapsto>
         Config \<lparr>filePath = js ''/books/a.txt'', fileName = js ''a.txt'', progress = 100,
                 totalLines = 200, lastReadTime = ISO 0, chapterPattern = None,
                 bookmarks = None\<rparr>],
      dirs = Map.empty, stats = Map.empty, writable = (\<lambda>_. True)\<rparr>"

definition stale_session :: TxtReaderProvider where
  "stale_session =
     show_panel shippedRegExp defaultChapterPattern stale_disk
       (Some (js ''one'' @ [0x0A] @ js ''two''))
       (newTxtReaderProvider (js ''/books/a.txt''))"

definition abc_session :: TxtReaderProvider where
  "abc_session =
     (newTxtReaderProvider (js ''/books/a.txt''))
       \<lparr>panel := True, lines := [js ''abc'', js ''xabcx'', js ''def'']\<rparr>"

text \<open>
  Lines with white space around them: blanks on both sides, a blank inside, a tab in
  front and a carriage return behind.
\<close>

definition spaced_session :: TxtReaderProvider where
  "spaced_session =
     (newTxtReaderProvider (js ''/books/a.txt''))
       \<lparr>panel := True,
         lines := [js ''  abc  '', js ''a bc'', 0x09 # js ''abc'' @ [0x0D]]\<rparr>"

text \<open>Disks: one with a sidecar for \<open>/books/a.txt\<close>, one with the book only, one empty.\<close>

definition pattern_disk :: fsys where
  "pattern_disk =
     \<lparr>files = [js ''/books/a.json'' \<mapsto>
         Config \<lparr>filePath = js ''/books/a.txt'', fileName = js ''a.txt'', progress = 5,
                 totalLines = 9, lastReadTime = ISO 1000,
                 chapterPattern = Some (js ''^Chapter''), bookmarks = Some [2, 4]\<rparr>],
      dirs = Map.empty, stats = Map.empty, writable = (\<lambda>_. True)\<rparr>"

definition fresh_disk :: fsys where
  "fresh_disk =
     \<lparr>files = Map.empty, dirs = Map.empty,
      stats = [js ''/books/a.txt'' \<mapsto> \<lparr>isFile = True, mtime = 500\<rparr>],
      writable = (\<lambda>_. True)\<rparr>"

definition empty_disk :: fsys where
  "empty_disk =
     \<lparr>files = Map.empty, dirs = Map.empty, stats = Map.empty, writable = (\<lambda>_. True)\<rparr>"




text \<open>
  Three shelves: one with the files \<open>a.txt\<close>, \<open>b.md\<close>, \<open>c.TXT\<close>, \<open>d.txt\<close>, of which \<open>d.txt\<close>
  has a sidecar; one where \<open>notes.txt\<close> is a folder; one where the modification time of
  \<open>b.txt\<close> is a millisecond past the last time of a \<open>Date\<close>.
\<close>

definition shelf_disk :: fsys where
  "shelf_disk =
     \<lparr>files = [js ''/books/d.json'' \<mapsto>
         Config \<lparr>filePath = js ''/books/d.txt'', fileName = js ''d.txt'', progress = 3,
                 totalLines = 40, lastReadTime = ISO 9000, chapterPattern = None,
                 bookmarks = None\<rparr>],
      dirs = [js ''/books'' \<mapsto> [js ''a.txt'', js ''b.md'', js ''c.TXT'', js ''d.txt'']],
      stats = [js ''/books/a.txt'' \<mapsto> \<lparr>isFile = True, mtime = 500\<rparr>,
               js ''/books/b.md'' \<mapsto> \<lparr>isFile = True, mtime = 600\<rparr>,
               js ''/books/c.TXT'' \<mapsto> \<lparr>isFile = True, mtime = 700\<rparr>,
               js ''/books/d.txt'' \<mapsto> \<lparr>isFile = True, mtime = 800\<rparr>],
      writable = (\<lambda>_. True)\<rparr>"

definition late_disk :: fsys where
  "late_disk =
     \<lparr>files = Map.empty,
      dirs = [js ''/books'' \<mapsto> [js ''a.txt'', js ''b.txt'', js ''d.txt'']],
      stats = [js ''/books/a.txt'' \<mapsto> \<lparr>isFile = True, mtime = 500\<rparr>,
               js ''/books/b.txt'' \<mapsto> \<lparr>isFile = True, mtime = 8640000000000001\<rparr>,
               js ''/books/d.txt'' \<mapsto> \<lparr>isFile = True, mtime = 800\<rparr>],
      writable = (\<lambda>_. True)\<rparr>"

definition folder_disk :: fsys where
  "folder_disk =
     \<lparr>files = Map.empty,
      dirs = [js ''/books'' \<mapsto> [js ''a.txt'', js ''notes.txt''],
              js ''/books/notes.txt'' \<mapsto> []],
      stats = [js ''/books/a.txt'' \<mapsto> \<lparr>isFile = True, mtime = 500\<rparr>,
               js ''/books/notes.txt'' \<mapsto> \<lparr>isFile = False, mtime = 600\<rparr>],
      writable = (\<lambda>_. True)\<rparr>"

section \<open>Numbers: results\<close>

lemma bit_length_bounds: "0 < n \<Longrightarrow> 2 ^ (bit_length n - 1) \<le> n \<and> n < 2 ^ bit_length n"
proof (induction n rule: bit_length.induct)
  case (1 n)
  show ?case
  proof (cases "n div 2 = 0")
    case True
    with 1 have "n = 1" by (simp add: div_eq_0_iff)
    then show ?thesis by (simp add: bit_length.simps)
  next
    case False
    with 1 have ih: "2 ^ (bit_length (n div 2) - 1) \<le> n div 2"
      "n div 2 < 2 ^ bit_length (n div 2)"
      by simp_all
    have b: "bit_length n = Suc (bit_length (n div 2))"
      using 1(2) by (simp add: bit_length.simps [of n])
    have p: "bit_length (n div 2) > 0"
      using False by (simp add: bit_length.simps [of "n div 2"])
    then obtain k where k: "bit_length (n div 2) = Suc k"
      by (cases "bit_length (n div 2)") auto
    from ih have "2 * 2 ^ k \<le> n" "n < 2 * 2 ^ Suc k" unfolding k by simp_all
    then show ?thesis by (simp add: b k)
  qed
qed

text \<open>Up to \<open>2 ^ 53\<close> nothing is rounded.\<close>

lemma round_double_exact: "\<bar>x\<bar> \<le> 2 ^ 53 \<Longrightarrow> round_double x = x"
  by (simp add: round_double_def)

lemma round_magnitude:
  fixes a :: int
  assumes "2 ^ 53 < a"
  defines "q \<equiv> 2 ^ (bit_length (nat a) - 53)"
  shows "0 < q" and "(2::int) ^ 53 \<le> (a div q) * q"
proof -
  show q: "0 < q" by (simp add: q_def)
  have pos: "0 < nat a" using assms(1) by simp
  let ?k = "bit_length (nat a)"
  have lo: "2 ^ (?k - 1) \<le> nat a" and hi: "nat a < 2 ^ ?k"
    using bit_length_bounds [OF pos] by (rule conjunct1, rule conjunct2)
  have "(2::nat) ^ 53 < 2 ^ ?k"
  proof -
    have "(2::nat) ^ 53 < nat a" using assms(1) by simp
    from this hi show ?thesis by (rule less_trans)
  qed
  then have k: "53 < ?k" by (simp only: power_strict_increasing_iff)
  then have e: "?k - 1 = 52 + (?k - 53)" by simp
  have "(2::int) ^ (?k - 1) \<le> a"
  proof -
    have "int (2 ^ (?k - 1)) \<le> int (nat a)" using lo by (simp only: of_nat_le_iff)
    then show ?thesis using assms(1) by simp
  qed
  then have "2 ^ 52 * q \<le> a" unfolding q_def e by (simp only: power_add)
  then have "(2 ^ 52 * q) div q \<le> a div q" by (rule zdiv_mono1) (rule q)
  then have m: "2 ^ 52 \<le> a div q" using q by simp
  have "(2::int) ^ 53 \<le> 2 ^ 52 * q"
  proof -
    have "(1::int) < q" unfolding q_def using k by simp
    then show ?thesis by simp
  qed
  also have "\<dots> \<le> (a div q) * q" using m q by simp
  finally show "(2::int) ^ 53 \<le> (a div q) * q" .
qed

text \<open>Rounding never crosses \<open>2 ^ 53\<close>, and it keeps the sign.\<close>

lemma round_double_large: "2 ^ 53 \<le> x \<Longrightarrow> 2 ^ 53 \<le> round_double x"
proof (cases "x = 2 ^ 53")
  case True
  then show ?thesis by (simp add: round_double_def)
next
  case False
  assume "2 ^ 53 \<le> x"
  with False have x: "2 ^ 53 < x" by simp
  from round_magnitude [OF x]
  have q: "0 < (2::int) ^ (bit_length (nat x) - 53)"
    and m: "2 ^ 53 \<le> (x div 2 ^ (bit_length (nat x) - 53)) * 2 ^ (bit_length (nat x) - 53)"
    by simp_all
  define q :: int where "q = 2 ^ (bit_length (nat x) - 53)"
  define m where "m = x div q"
  have a: "\<bar>x\<bar> = x" and s: "sgn x = 1" using x by simp_all
  have r: "round_double x = m * q \<or> round_double x = (m + 1) * q"
    unfolding round_double_def Let_def a s m_def q_def using x by simp
  have mq: "2 ^ 53 \<le> m * q" using m by (simp only: m_def q_def)
  have "m * q \<le> (m + 1) * q" using q by (simp add: q_def algebra_simps)
  with mq have "2 ^ 53 \<le> (m + 1) * q" by (rule order_trans)
  with mq r show ?thesis by (elim disjE) (simp_all only:)
qed

lemma round_double_minus: "round_double (- x) = - round_double x"
  by (simp add: round_double_def Let_def)

lemma round_double_small: "x \<le> - (2 ^ 53) \<Longrightarrow> round_double x \<le> - (2 ^ 53)"
  using round_double_large [of "- x"] by (simp add: round_double_minus)

lemma round_double_sign:
  "round_double x < 0 \<longleftrightarrow> x < 0" "round_double x = 0 \<longleftrightarrow> x = 0" "0 < round_double x \<longleftrightarrow> 0 < x"
proof -
  consider "\<bar>x\<bar> \<le> 2 ^ 53" | "2 ^ 53 \<le> x" | "x \<le> - (2 ^ 53)" by linarith
  then have "(round_double x < 0 \<longleftrightarrow> x < 0) \<and> (round_double x = 0 \<longleftrightarrow> x = 0)
     \<and> (0 < round_double x \<longleftrightarrow> 0 < x)"
  proof cases
    case 1
    then show ?thesis by (simp add: round_double_exact)
  next
    case 2
    with round_double_large [OF 2] show ?thesis by simp
  next
    case 3
    with round_double_small [OF 3] show ?thesis by simp
  qed
  then show "round_double x < 0 \<longleftrightarrow> x < 0" "round_double x = 0 \<longleftrightarrow> x = 0"
    "0 < round_double x \<longleftrightarrow> 0 < x"
    by simp_all
qed

text \<open>
  Above \<open>2 ^ 53\<close> the odd numbers are not doubles: \<open>2 ^ 53 + 1\<close> goes down to the even
  mantissa, \<open>2 ^ 53 + 3\<close> up, and \<open>2 ^ 54 - 3\<close> to the multiple of four next to it.
\<close>

lemma round_double_examples:
  "round_double (2 ^ 53 + 1) = 2 ^ 53" "round_double (2 ^ 53 + 3) = 2 ^ 53 + 4"
  "round_double (2 ^ 54 - 3) = 18014398509481980" "round_double (- (2 ^ 53) - 1) = - (2 ^ 53)"
  by (simp_all add: round_double_def bit_length.simps Let_def)

lemma safe_integer_exact: "safe_integer x \<Longrightarrow> round_double x = x"
proof -
  assume "safe_integer x"
  then have "\<bar>x\<bar> \<le> 2 ^ 53" by (simp add: safe_integer_def abs_le_iff)
  then show ?thesis by (rule round_double_exact)
qed

lemma num_sub_exact: "safe_integer (a - b) \<Longrightarrow> num_sub a b = a - b"
  unfolding num_sub_def by (rule safe_integer_exact)

lemma num_add_exact: "safe_integer (a + b) \<Longrightarrow> num_add a b = a + b"
  unfolding num_add_def by (rule safe_integer_exact)

text \<open>A bound on the other side of zero hides the rounding.\<close>

lemma max_num_sub: "a - b \<le> 2 ^ 53 \<Longrightarrow> max 0 (num_sub a b) = max 0 (a - b)"
proof (cases "- (2 ^ 53) \<le> a - b")
  case True
  assume "a - b \<le> 2 ^ 53"
  with True have "\<bar>a - b\<bar> \<le> 2 ^ 53" by simp
  then show ?thesis by (simp add: num_sub_def round_double_exact)
next
  case False
  then have l: "a - b \<le> - (2 ^ 53)" by simp
  from round_double_small [OF l] l show ?thesis by (simp add: num_sub_def)
qed

lemma min_num_add:
  "n \<le> 2 ^ 53 \<Longrightarrow> - (2 ^ 53) \<le> a + b \<Longrightarrow> min n (num_add a b) = min n (a + b)"
proof (cases "a + b \<le> 2 ^ 53")
  case True
  assume "- (2 ^ 53) \<le> a + b"
  with True have "\<bar>a + b\<bar> \<le> 2 ^ 53" by simp
  then show ?thesis by (simp add: num_add_def round_double_exact)
next
  case False
  assume n: "n \<le> 2 ^ 53"
  from False have l: "2 ^ 53 \<le> a + b" by simp
  from round_double_large [OF l] l n show ?thesis by (simp add: num_add_def)
qed

section \<open>BookConfigManager: results\<close>

lemma getConfigPath_a: "getConfigPath (js ''/books/a.txt'') = js ''/books/a.json''"
  by (simp add: getConfigPath_def path_join_def path_normalize_def path_dirname_def
      path_basename_def js_def slash_def endsWith_def)

lemma basename_a: "path_basename (js ''/books/a.txt'') [] = js ''a.txt''"
  by (simp add: path_basename_def js_def slash_def)

text \<open>
  C9. When a config exists for the source path, the record that \<open>updateProgress\<close> saves
  is the loaded one with \<open>progress\<close>, \<open>totalLines\<close> and \<open>lastReadTime\<close> replaced: \<open>filePath\<close>,
  \<open>fileName\<close>, \<open>chapterPattern\<close> and \<open>bookmarks\<close> go back to the disk as they were read.
\<close>

theorem updateProgress_frame:
  assumes "loadConfig fs txtFilePath = Some c"
  shows "updateProgress fs now txtFilePath prog nlines =
           snd (saveConfig fs (c\<lparr>progress := prog, totalLines := nlines,
                                 lastReadTime := ISO now\<rparr>))
         \<and> updateProgress fs now txtFilePath prog nlines =
             (if writable fs (getConfigPath (filePath c))
              then fs\<lparr>files := (files fs)(getConfigPath (filePath c) \<mapsto>
                     Config (c\<lparr>progress := prog, totalLines := nlines,
                               lastReadTime := ISO now\<rparr>))\<rparr>
              else fs)
         \<and> filePath (c\<lparr>progress := prog, totalLines := nlines, lastReadTime := ISO now\<rparr>)
             = filePath c
         \<and> fileName (c\<lparr>progress := prog, totalLines := nlines, lastReadTime := ISO now\<rparr>)
             = fileName c
         \<and> chapterPattern (c\<lparr>progress := prog, totalLines := nlines, lastReadTime := ISO now\<rparr>)
             = chapterPattern c
         \<and> bookmarks (c\<lparr>progress := prog, totalLines := nlines, lastReadTime := ISO now\<rparr>)
             = bookmarks c"
  using assms by (simp add: updateProgress_def saveConfig_def Let_def)

theorem updateProgress_frame_witness:
  "files (updateProgress pattern_disk 2000 (js ''/books/a.txt'') 7 9) (js ''/books/a.json'') =
     Some (Config \<lparr>filePath = js ''/books/a.txt'', fileName = js ''a.txt'', progress = 7,
                 totalLines = 9, lastReadTime = ISO 2000,
                 chapterPattern = Some (js ''^Chapter''), bookmarks = Some [2, 4]\<rparr>)"
proof -
  have l: "loadConfig pattern_disk (js ''/books/a.txt'') =
     Some \<lparr>filePath = js ''/books/a.txt'', fileName = js ''a.txt'', progress = 5,
                 totalLines = 9, lastReadTime = ISO 1000,
                 chapterPattern = Some (js ''^Chapter''), bookmarks = Some [2, 4]\<rparr>"
    by (simp add: loadConfig_def getConfigPath_a existsSync_def pattern_disk_def)
  have w: "writable pattern_disk (js ''/books/a.json'')"
    by (simp add: pattern_disk_def)
  from updateProgress_frame [OF l, of 2000 7 9] w show ?thesis
    by (simp add: saveConfig_def getConfigPath_a)
qed

text \<open>
  When there is no config and \<open>stat\<close> accepts the source, \<open>updateChapterPattern\<close> saves a
  new record with \<open>progress\<close> 0 and \<open>totalLines\<close> 0 (the lines of the file are never counted)
  and the pattern set.
\<close>

lemma updateChapterPattern_synthesizes:
  assumes "loadConfig fs txtFilePath = None" and "stats fs txtFilePath = Some st"
  shows "updateChapterPattern fs now txtFilePath pattern =
           Inr (snd (saveConfig fs
             \<lparr>filePath = txtFilePath, fileName = path_basename txtFilePath [],
              progress = 0, totalLines = 0, lastReadTime = ISO now,
              chapterPattern = Some pattern, bookmarks = None\<rparr>))"
  using assms by (simp add: updateChapterPattern_def)

lemma updateChapterPattern_fresh_disk:
  "updateChapterPattern fresh_disk 2000 (js ''/books/a.txt'') (js ''^Chapter'') =
     Inr (fresh_disk\<lparr>files := [js ''/books/a.json'' \<mapsto>
       Config \<lparr>filePath = js ''/books/a.txt'', fileName = js ''a.txt'', progress = 0,
               totalLines = 0, lastReadTime = ISO 2000,
               chapterPattern = Some (js ''^Chapter''), bookmarks = None\<rparr>]\<rparr>)"
proof -
  have l: "loadConfig fresh_disk (js ''/books/a.txt'') = None"
    by (simp add: loadConfig_def existsSync_def fresh_disk_def)
  have s: "stats fresh_disk (js ''/books/a.txt'') = Some \<lparr>isFile = True, mtime = 500\<rparr>"
    by (simp add: fresh_disk_def)
  have w: "writable fresh_disk (js ''/books/a.json'')" and f: "files fresh_disk = Map.empty"
    by (simp_all add: fresh_disk_def)
  from updateChapterPattern_synthesizes [OF l s, of 2000 "js ''^Chapter''"] w f
  show ?thesis by (simp add: saveConfig_def getConfigPath_a basename_a)
qed

text \<open>
  C8. For a source path without a config \<open>updateChapterPattern\<close> is to save a default
  record (\<open>progress\<close> 0, \<open>totalLines\<close> 0) with the pattern set; the comment on the branch
  says that it creates the new config. It fails to where \<open>stat\<close> rejects the source: for
  \<open>/books/a.txt\<close> on a disk that holds neither the book nor a sidecar, the call with the
  pattern \<open>^Chapter\<close> rejects and nothing is saved, while \<open>updateProgress\<close>, which builds
  its default record without any \<open>stat\<close>, saves one for the same path on the same disk.
\<close>

theorem updateChapterPattern_rejects:
  "loadConfig empty_disk (js ''/books/a.txt'') = None
   \<and> updateChapterPattern empty_disk 2000 (js ''/books/a.txt'') (js ''^Chapter'')
       = Inl StatRejected
   \<and> updateProgress empty_disk 2000 (js ''/books/a.txt'') 0 0
       = empty_disk\<lparr>files := [js ''/books/a.json'' \<mapsto>
           Config \<lparr>filePath = js ''/books/a.txt'', fileName = js ''a.txt'', progress = 0,
                   totalLines = 0, lastReadTime = ISO 2000,
                   chapterPattern = None, bookmarks = None\<rparr>]\<rparr>"
proof -
  have l: "loadConfig empty_disk (js ''/books/a.txt'') = None"
    by (simp add: loadConfig_def existsSync_def empty_disk_def)
  have w: "writable empty_disk (js ''/books/a.json'')" and f: "files empty_disk = Map.empty"
    and n: "stats empty_disk (js ''/books/a.txt'') = None"
    by (simp_all add: empty_disk_def)
  show ?thesis
    using l w f n
    by (simp add: updateChapterPattern_def updateProgress_def saveConfig_def getConfigPath_a
        basename_a Let_def)
qed

section \<open>Navigation: results\<close>

lemma currentLine_updateWebview: "currentLine (updateWebview s) = currentLine s"
  by (simp add: updateWebview_def postMessage_def)

text \<open>
  C5. \<open>jumpToLine n\<close> with \<open>n < 0\<close> or \<open>n \<ge> totalLines\<close> changes nothing at all (the cursor
  stays, nothing is posted, no error is shown); with \<open>0 \<le> n < totalLines\<close> it sets
  \<open>currentLine\<close> to \<open>n\<close>.
\<close>

theorem jumpToLine_range:
  "(n < 0 \<or> n \<ge> int (length (lines s)) \<longrightarrow> jumpToLine n s = s)
   \<and> (0 \<le> n \<and> n < int (length (lines s)) \<longrightarrow> currentLine (jumpToLine n s) = n)"
  by (auto simp: jumpToLine_def currentLine_updateWebview)

theorem jumpToLine_range_witness:
  "jumpToLine 7 ((newTxtReaderProvider (js ''/b/a.txt''))\<lparr>lines := [js ''x'', js ''y'']\<rparr>)
     = (newTxtReaderProvider (js ''/b/a.txt''))\<lparr>lines := [js ''x'', js ''y'']\<rparr>
   \<and> jumpToLine (- 1) ((newTxtReaderProvider (js ''/b/a.txt''))\<lparr>lines := [js ''x'', js ''y'']\<rparr>)
     = (newTxtReaderProvider (js ''/b/a.txt''))\<lparr>lines := [js ''x'', js ''y'']\<rparr>
   \<and> currentLine
        (jumpToLine 1 ((newTxtReaderProvider (js ''/b/a.txt''))\<lparr>lines := [js ''x'', js ''y'']\<rparr>))
     = 1"
  using jumpToLine_range [of 7 "(newTxtReaderProvider (js ''/b/a.txt''))\<lparr>lines := [js ''x'', js ''y'']\<rparr>"]
    jumpToLine_range [of "- 1" "(newTxtReaderProvider (js ''/b/a.txt''))\<lparr>lines := [js ''x'', js ''y'']\<rparr>"]
    jumpToLine_range [of 1 "(newTxtReaderProvider (js ''/b/a.txt''))\<lparr>lines := [js ''x'', js ''y'']\<rparr>"]
  by simp

text \<open>
  C3 (as the code has it). \<open>scrollUp\<close> sets \<open>currentLine\<close> to \<open>max 0 (currentLine - step)\<close>
  and \<open>scrollDown\<close> to \<open>min (totalLines - 1) (currentLine + step)\<close>, for a cursor and a step
  that are safe integers and have a safe integer as their difference, and as their sum:
  each bounds one side only. With a safe integer \<open>step \<ge> 0\<close> and the cursor inside
  \<open>[0, totalLines - 1]\<close> that is the move by \<open>step\<close> clamped to the range; \<open>scrollDown\<close> at
  \<open>totalLines - 1\<close> and \<open>scrollUp\<close> at \<open>0\<close> leave the cursor where it is. (The bound on the
  number of lines is the one every array has.)
\<close>

theorem scroll_saturates:
  "(safe_integer (currentLine s) \<and> safe_integer step \<and> safe_integer (currentLine s - step) \<longrightarrow>
      currentLine (scrollUp step s) = max 0 (currentLine s - step))
   \<and> (safe_integer (currentLine s) \<and> safe_integer step
        \<and> safe_integer (currentLine s + step) \<longrightarrow>
      currentLine (scrollDown step s)
        = min (int (length (lines s)) - 1) (currentLine s + step))
   \<and> (length (lines s) < 2 ^ 32 \<and> safe_integer step \<and> 0 \<le> step
        \<and> 0 \<le> currentLine s \<and> currentLine s \<le> int (length (lines s)) - 1 \<longrightarrow>
        currentLine (scrollUp step s)
          = max 0 (min (int (length (lines s)) - 1) (currentLine s - step))
        \<and> currentLine (scrollDown step s)
          = max 0 (min (int (length (lines s)) - 1) (currentLine s + step)))
   \<and> (length (lines s) < 2 ^ 32 \<and> safe_integer step \<and> 0 \<le> step
        \<and> currentLine s = int (length (lines s)) - 1 \<longrightarrow>
        currentLine (scrollDown step s) = currentLine s)
   \<and> (safe_integer step \<and> 0 \<le> step \<and> currentLine s = 0 \<longrightarrow>
        currentLine (scrollUp step s) = currentLine s)"
proof -
  have u: "currentLine (scrollUp step s) = max 0 (num_sub (currentLine s) step)"
    and d: "currentLine (scrollDown step s)
              = min (int (length (lines s)) - 1) (num_add (currentLine s) step)"
    by (simp_all add: scrollUp_def scrollDown_def currentLine_updateWebview)
  have 1: "safe_integer (currentLine s - step) \<Longrightarrow>
      currentLine (scrollUp step s) = max 0 (currentLine s - step)"
    unfolding u by (simp add: num_sub_exact)
  have 2: "safe_integer (currentLine s + step) \<Longrightarrow>
      currentLine (scrollDown step s)
        = min (int (length (lines s)) - 1) (currentLine s + step)"
    unfolding d by (simp add: num_add_exact)
  have 3: "currentLine (scrollUp step s)
          = max 0 (min (int (length (lines s)) - 1) (currentLine s - step))
        \<and> currentLine (scrollDown step s)
          = max 0 (min (int (length (lines s)) - 1) (currentLine s + step))"
    if len: "length (lines s) < 2 ^ 32" and st: "safe_integer step" "0 \<le> step"
      and c: "0 \<le> currentLine s" "currentLine s \<le> int (length (lines s)) - 1"
  proof -
    have n: "int (length (lines s)) - 1 \<le> 2 ^ 53" using len by simp
    with c st have "currentLine s - step \<le> 2 ^ 53" by simp
    then have "currentLine (scrollUp step s) = max 0 (currentLine s - step)"
      unfolding u by (rule max_num_sub)
    moreover have "currentLine (scrollDown step s)
        = min (int (length (lines s)) - 1) (currentLine s + step)"
      unfolding d using n c st by (intro min_num_add) simp_all
    ultimately show ?thesis using c st by simp
  qed
  have 4: "currentLine (scrollDown step s) = currentLine s"
    if len: "length (lines s) < 2 ^ 32" and st: "safe_integer step" "0 \<le> step"
      and c: "currentLine s = int (length (lines s)) - 1"
  proof -
    have n: "int (length (lines s)) - 1 \<le> 2 ^ 53" using len by simp
    have "currentLine (scrollDown step s)
        = min (int (length (lines s)) - 1) (currentLine s + step)"
      unfolding d using n c st by (intro min_num_add) simp_all
    with c st show ?thesis by simp
  qed
  have 5: "currentLine (scrollUp step s) = currentLine s"
    if st: "safe_integer step" "0 \<le> step" and c: "currentLine s = 0"
  proof -
    have "currentLine s - step \<le> 2 ^ 53" using c st by simp
    then have "currentLine (scrollUp step s) = max 0 (currentLine s - step)"
      unfolding u by (rule max_num_sub)
    with c st show ?thesis by simp
  qed
  from 1 2 3 4 5 show ?thesis by blast
qed

theorem scroll_saturates_witness:
  "currentLine (scrollDown 3 (abc_session\<lparr>currentLine := 2\<rparr>)) = 2
   \<and> currentLine (scrollUp 3 abc_session) = 0
   \<and> currentLine (scrollDown 1 abc_session) = 1
   \<and> currentLine (scrollUp 1 (abc_session\<lparr>currentLine := 2\<rparr>)) = 1"
proof -
  have l: "lines abc_session = [js ''abc'', js ''xabcx'', js ''def'']"
    and c: "currentLine abc_session = 0"
    by (simp_all add: abc_session_def newTxtReaderProvider_def)
  from scroll_saturates [of "abc_session\<lparr>currentLine := 2\<rparr>" 3]
    scroll_saturates [of abc_session 3] scroll_saturates [of abc_session 1]
    scroll_saturates [of "abc_session\<lparr>currentLine := 2\<rparr>" 1] l c
  show ?thesis by (simp add: safe_integer_def)
qed

text \<open>
  Past the safe integers the sum is not the exact one: from \<open>2 ^ 53 - 1\<close>, a step of \<open>- 2\<close>
  takes \<open>scrollUp\<close> to \<open>2 ^ 53\<close>, not to \<open>2 ^ 53 + 1\<close>.
\<close>

lemma scrollUp_rounds:
  "currentLine (scrollUp (- 2) (abc_session\<lparr>currentLine := 2 ^ 53 - 1\<rparr>)) = 2 ^ 53"
  by (simp add: scrollUp_def currentLine_updateWebview num_sub_def round_double_def
      bit_length.simps Let_def)

lemma stale_session_cursor:
  "currentLine stale_session = 100 \<and> lines stale_session = [js ''one'', js ''two'']"
proof -
  have "split 0x0A (js ''one'' @ [0x0A] @ js ''two'') = [js ''one'', js ''two'']"
    by (simp add: js_def)
  then show ?thesis
    by (simp add: stale_session_def show_panel_def loadFile_def newTxtReaderProvider_def
        loadConfig_def getConfigPath_a existsSync_def stale_disk_def sendInitialContent_def
        sendChaptersToWebview_def postMessage_def scanChapters_def Let_def showMessage_def
        split: option.splits)
qed

text \<open>
  A cursor above the range is not brought back by \<open>scrollUp\<close>: after opening the book
  that has shrunk to two lines, \<open>scrollUp\<close> with the default step moves from 100 to 97.
\<close>

theorem scrollUp_counterexample:
  "currentLine (scrollUp 3 stale_session) = 97 \<and> length (lines stale_session) = 2
   \<and> currentLine (scrollUp 3 stale_session)
       \<noteq> max 0 (min (int (length (lines stale_session)) - 1) (currentLine stale_session - 3))"
  by (simp add: scrollUp_def currentLine_updateWebview stale_session_cursor num_sub_def
      round_double_def)

section \<open>Search: results\<close>

lemma search_from_enumerate:
  "search_from t ls k =
     map (\<lambda>(i, l). \<lparr>SearchResult.line = i, content = trim l\<rparr>)
       (filter (\<lambda>(i, l). sublist t l) (enumerate k ls))"
  by (induction ls arbitrary: k) (simp_all add: str_includes_def)

lemma search_from_lines_ge:
  "r \<in> set (search_from t ls k) \<Longrightarrow> k \<le> SearchResult.line r"
  by (induction ls arbitrary: k) (auto split: if_splits dest: Suc_leD)

lemma search_from_ascending:
  "sorted_wrt (<) (map SearchResult.line (search_from t ls k))"
proof (induction ls arbitrary: k)
  case Nil
  show ?case by simp
next
  case (Cons l ls)
  have "\<forall>r \<in> set (search_from t ls (Suc k)). k < SearchResult.line r"
    using search_from_lines_ge [of _ t ls "Suc k"] by (auto simp: less_eq_Suc_le)
  with Cons.IH [of "Suc k"] show ?case by simp
qed


lemma search_from_none:
  "\<forall>l \<in> set ls. \<not> sublist t l \<Longrightarrow> search_from t ls k = []"
  by (induction ls arbitrary: k) (simp_all add: str_includes_def)

lemma outbox_search:
  "outbox (search t s) =
     outbox s @ (if panel s then [SearchResults (search_results t s) t] else [])
     @ [if search_results t s = [] then InfoNotFound t
        else InfoFound (length (search_results t s))]"
  by (simp add: search_def Let_def postMessage_def showMessage_def)

lemma search_from_some:
  "\<exists>l \<in> set ls. sublist t l \<Longrightarrow> search_from t ls k \<noteq> []"
  by (induction ls arbitrary: k) (auto simp: str_includes_def)

text \<open>
  C6 (as the code has it). The results of \<open>search\<close> are the lines that contain the term
  as a contiguous run of code units of the line as it is (nothing is folded: case
  matters, no character is special, white space counts), each with its index and its
  trimmed content, in ascending order of index. The results are posted to the webview
  when there is one. Their number is shown when at least one line matches; when none
  does, the results are empty and what is shown is the notice that the term was not
  found, with no number. Over \<open>abc\<close>, \<open>xabcx\<close>, \<open>def\<close> the term \<open>abc\<close> gives lines 0 and 1; over
  lines with white space around \<open>abc\<close> the content is \<open>abc\<close>, and a term that starts with
  a blank finds the line that has the blank.
\<close>

theorem search_literal_substring:
  "search_results t s =
     map (\<lambda>(i, l). \<lparr>SearchResult.line = i, content = trim l\<rparr>)
       (filter (\<lambda>(i, l). sublist t l) (enumerate 0 (lines s)))
   \<and> sorted_wrt (<) (map SearchResult.line (search_results t s))
   \<and> outbox (search t s) =
       outbox s @ (if panel s then [SearchResults (search_results t s) t] else [])
       @ [if search_results t s = [] then InfoNotFound t
          else InfoFound (length (search_results t s))]
   \<and> ((\<exists>l \<in> set (lines s). sublist t l) \<longrightarrow>
        search_results t s \<noteq> []
        \<and> last (outbox (search t s)) = InfoFound (length (search_results t s)))
   \<and> ((\<forall>l \<in> set (lines s). \<not> sublist t l) \<longrightarrow>
        search_results t s = [] \<and> last (outbox (search t s)) = InfoNotFound t)
   \<and> (lines s = [js ''abc'', js ''xabcx'', js ''def''] \<longrightarrow>
        search_results (js ''abc'') s =
          [\<lparr>SearchResult.line = 0, content = js ''abc''\<rparr>,
           \<lparr>SearchResult.line = 1, content = js ''xabcx''\<rparr>])
   \<and> (lines s = [js ''  abc  '', js ''a bc'', 0x09 # js ''abc'' @ [0x0D]] \<longrightarrow>
        search_results (js ''abc'') s =
          [\<lparr>SearchResult.line = 0, content = js ''abc''\<rparr>,
           \<lparr>SearchResult.line = 2, content = js ''abc''\<rparr>]
        \<and> search_results (js '' abc'') s =
          [\<lparr>SearchResult.line = 0, content = js ''abc''\<rparr>])"
proof -
  have ex: "search_from (js ''abc'') [js ''abc'', js ''xabcx'', js ''def''] 0 =
          [\<lparr>SearchResult.line = 0, content = js ''abc''\<rparr>,
           \<lparr>SearchResult.line = 1, content = js ''xabcx''\<rparr>]"
    by (simp add: str_includes_def js_def trim_def isWhiteSpace_def sublist_code prefix_code)
  have sp: "search_from (js ''abc'') [js ''  abc  '', js ''a bc'', 0x09 # js ''abc'' @ [0x0D]] 0 =
          [\<lparr>SearchResult.line = 0, content = js ''abc''\<rparr>,
           \<lparr>SearchResult.line = 2, content = js ''abc''\<rparr>]"
    "search_from (js '' abc'') [js ''  abc  '', js ''a bc'', 0x09 # js ''abc'' @ [0x0D]] 0 =
          [\<lparr>SearchResult.line = 0, content = js ''abc''\<rparr>]"
    by (simp_all add: str_includes_def js_def trim_def isWhiteSpace_def sublist_code
        prefix_code)
  have some: "(\<exists>l \<in> set (lines s). sublist t l) \<longrightarrow> search_from t (lines s) 0 \<noteq> []"
    using search_from_some [of "lines s" t 0] by blast
  have none: "(\<forall>l \<in> set (lines s). \<not> sublist t l) \<longrightarrow> search_from t (lines s) 0 = []"
    using search_from_none [of "lines s" t 0] by blast
  show ?thesis
    unfolding outbox_search search_results_def
    using search_from_enumerate [of t "lines s" 0] search_from_ascending [of t "lines s" 0]
      some none ex sp
    by simp
qed

theorem search_literal_substring_witness:
  "search_results (js ''abc'') abc_session =
     [\<lparr>SearchResult.line = 0, content = js ''abc''\<rparr>,
      \<lparr>SearchResult.line = 1, content = js ''xabcx''\<rparr>]
   \<and> outbox (search (js ''abc'') abc_session) =
        [SearchResults [\<lparr>SearchResult.line = 0, content = js ''abc''\<rparr>,
                        \<lparr>SearchResult.line = 1, content = js ''xabcx''\<rparr>] (js ''abc''),
         InfoFound 2]
   \<and> last (outbox (search (js ''Abc'') abc_session)) = InfoNotFound (js ''Abc'')
   \<and> search_results (js ''abc'') spaced_session =
        [\<lparr>SearchResult.line = 0, content = js ''abc''\<rparr>,
         \<lparr>SearchResult.line = 2, content = js ''abc''\<rparr>]
   \<and> search_results (js '' abc'') spaced_session =
        [\<lparr>SearchResult.line = 0, content = js ''abc''\<rparr>]"
proof -
  have l: "lines abc_session = [js ''abc'', js ''xabcx'', js ''def'']"
    and p: "panel abc_session" and o: "outbox abc_session = []"
    by (simp_all add: abc_session_def newTxtReaderProvider_def)
  have ls: "lines spaced_session = [js ''  abc  '', js ''a bc'', 0x09 # js ''abc'' @ [0x0D]]"
    by (simp add: spaced_session_def newTxtReaderProvider_def)
  have none: "\<forall>l \<in> set (lines abc_session). \<not> sublist (js ''Abc'') l"
    by (simp add: l js_def sublist_code prefix_code)
  have 1: "search_results (js ''abc'') abc_session =
     [\<lparr>SearchResult.line = 0, content = js ''abc''\<rparr>,
      \<lparr>SearchResult.line = 1, content = js ''xabcx''\<rparr>]"
    using search_literal_substring [of "js ''abc''" abc_session] l by blast
  have "outbox (search (js ''abc'') abc_session) =
       outbox abc_session
       @ (if panel abc_session
          then [SearchResults (search_results (js ''abc'') abc_session) (js ''abc'')] else [])
       @ [if search_results (js ''abc'') abc_session = [] then InfoNotFound (js ''abc'')
          else InfoFound (length (search_results (js ''abc'') abc_session))]"
    using search_literal_substring [of "js ''abc''" abc_session] by blast
  then have 2: "outbox (search (js ''abc'') abc_session) =
        [SearchResults [\<lparr>SearchResult.line = 0, content = js ''abc''\<rparr>,
                        \<lparr>SearchResult.line = 1, content = js ''xabcx''\<rparr>] (js ''abc''),
         InfoFound 2]"
    unfolding 1 by (simp add: p o)
  have 3: "last (outbox (search (js ''Abc'') abc_session)) = InfoNotFound (js ''Abc'')"
    using search_literal_substring [of "js ''Abc''" abc_session] none by blast
  have 4: "search_results (js ''abc'') spaced_session =
        [\<lparr>SearchResult.line = 0, content = js ''abc''\<rparr>,
         \<lparr>SearchResult.line = 2, content = js ''abc''\<rparr>]
     \<and> search_results (js '' abc'') spaced_session =
        [\<lparr>SearchResult.line = 0, content = js ''abc''\<rparr>]"
    using search_literal_substring [of "js ''abc''" spaced_session] ls by blast
  from 1 2 3 4 show ?thesis by (simp only: simp_thms)
qed

text \<open>
  For a term that no line contains no number is shown: the search for \<open>ABC\<close> over \<open>abc\<close>,
  \<open>xabcx\<close>, \<open>def\<close> posts the empty results and shows the notice that \<open>ABC\<close> was not found;
  a count of 0 is not among what the session hands out.
\<close>

theorem search_counterexample:
  "search_results (js ''ABC'') abc_session = []
   \<and> outbox (search (js ''ABC'') abc_session) =
        [SearchResults [] (js ''ABC''), InfoNotFound (js ''ABC'')]
   \<and> InfoFound 0 \<notin> set (outbox (search (js ''ABC'') abc_session))"
proof -
  have r: "search_results (js ''ABC'') abc_session = []"
    by (simp add: search_results_def abc_session_def newTxtReaderProvider_def
        str_includes_def js_def sublist_code prefix_code)
  have p: "panel abc_session" and o: "outbox abc_session = []"
    by (simp_all add: abc_session_def newTxtReaderProvider_def)
  show ?thesis by (simp add: outbox_search r p o)
qed

lemma split_not_Nil: "split sep cs \<noteq> []"
  by (cases cs) (simp_all split: list.splits)



section \<open>Chapters: results\<close>

text \<open>
  The search is exact: \<open>regex_test\<close> holds when the pattern matches somewhere in the
  string, and only then.
\<close>

lemma matches_bounds:
  "matches s r i j \<Longrightarrow> i \<le> j \<and> (i \<le> length s \<longrightarrow> j \<le> length s)"
  by (induction rule: matches.induct) auto

lemma iterate_self: "i \<in> set (iterate n f i)"
  by (cases n) simp_all

lemma iterate_sound:
  assumes "\<And>p q. q \<in> set (f p) \<Longrightarrow> matches s a p q"
  shows "j \<in> set (iterate n f i) \<Longrightarrow> matches s (Star a) i j"
proof (induction n arbitrary: i)
  case 0
  then show ?case by (simp add: m_Star0)
next
  case (Suc n)
  then show ?case by (auto intro: m_Star0 m_StarStep assms)
qed

lemma ends_sound: "j \<in> set (ends r s i) \<Longrightarrow> matches s r i j"
proof (induction r arbitrary: i j)
  case (Star r)
  then show ?case by (auto intro: iterate_sound)
next
  case (Plus r)
  then show ?case by (auto intro: m_Plus iterate_sound)
next
  case (Seq a b)
  from Seq.prems obtain k where "k \<in> set (ends a s i)" "j \<in> set (ends b s k)" by auto
  then have "matches s a i k" "matches s b k j" by (simp_all add: Seq.IH)
  then show ?case by (rule m_Seq)
qed (auto intro: matches.intros split: if_splits)

lemma iterate_more_fuel: "j \<in> set (iterate n f k) \<Longrightarrow> j \<in> set (iterate (Suc n) f k)"
proof (induction n arbitrary: k)
  case 0
  then show ?case by simp
next
  case (Suc n)
  from Suc.prems consider "j = k" | q where "q \<in> set (f k)" "k < q" "j \<in> set (iterate n f q)"
    by auto
  then show ?case
  proof cases
    case 1
    then show ?thesis by simp
  next
    case 2
    then have "j \<in> set (iterate (Suc n) f q)" using Suc.IH by blast
    with 2 show ?thesis by (subst iterate.simps) auto
  qed
qed

lemma iterate_fuel_mono:
  assumes "n \<le> m" and "j \<in> set (iterate n f k)"
  shows "j \<in> set (iterate m f k)"
  using assms by (induction rule: dec_induct) (auto dest: iterate_more_fuel)

lemma iterate_enough:
  assumes "\<forall>p q. q \<in> set (f p) \<longrightarrow> p \<le> L \<longrightarrow> q \<le> L"
  shows "j \<in> set (iterate n f k) \<Longrightarrow> k \<le> L \<Longrightarrow> j \<in> set (iterate (L - k) f k)"
proof (induction n arbitrary: k)
  case 0
  then show ?case by (simp add: iterate_self)
next
  case (Suc n)
  from Suc.prems(1) consider "j = k"
    | q where "q \<in> set (f k)" "k < q" "j \<in> set (iterate n f q)"
    by auto
  then show ?case
  proof cases
    case 1
    then show ?thesis by (simp add: iterate_self)
  next
    case 2
    from 2(1) Suc.prems(2) assms have q: "q \<le> L" by blast
    with 2(3) have e: "j \<in> set (iterate (L - q) f q)" by (rule Suc.IH)
    from 2(2) q obtain m where m: "L - k = Suc m" and l: "L - q \<le> m"
      by (cases "L - k") auto
    from l e have "j \<in> set (iterate m f q)" by (rule iterate_fuel_mono)
    with 2(1,2) show ?thesis unfolding m by (subst iterate.simps) auto
  qed
qed

lemma iterate_step:
  assumes b: "\<forall>p q. q \<in> set (f p) \<longrightarrow> p \<le> L \<longrightarrow> q \<le> L"
    and "k \<in> set (f i)" and "i \<le> k" and "i \<le> L" and "j \<in> set (iterate L f k)"
  shows "j \<in> set (iterate L f i)"
proof (cases "k = i")
  case True
  with assms(5) show ?thesis by simp
next
  case False
  with assms(3) have ik: "i < k" by simp
  from assms(2,4) b have kL: "k \<le> L" by blast
  from assms(5) kL have e: "j \<in> set (iterate (L - k) f k)" by (rule iterate_enough [OF b])
  from ik kL obtain m where m: "L - i = Suc m" and l: "L - k \<le> m"
    by (cases "L - i") auto
  from l e have "j \<in> set (iterate m f k)" by (rule iterate_fuel_mono)
  with assms(2) ik have "j \<in> set (iterate (L - i) f i)"
    unfolding m by (subst iterate.simps) auto
  with diff_le_self show ?thesis by (rule iterate_fuel_mono)
qed

lemma ends_bounded: "q \<in> set (ends a s p) \<Longrightarrow> p \<le> length s \<Longrightarrow> q \<le> length s"
  using ends_sound matches_bounds by blast

lemma ends_complete: "matches s r i j \<Longrightarrow> i \<le> length s \<Longrightarrow> j \<in> set (ends r s i)"
proof (induction rule: matches.induct)
  case (m_Seq a i k b j)
  then have "k \<le> length s" using matches_bounds by blast
  with m_Seq show ?case by auto
next
  case (m_Star0 a i)
  show ?case by (simp add: iterate_self)
next
  case (m_StarStep a i k j)
  then have k: "k \<le> length s" "i \<le> k" using matches_bounds by blast+
  with m_StarStep have "k \<in> set (ends a s i)" "j \<in> set (iterate (length s) (ends a s) k)"
    by simp_all
  moreover have "\<forall>p q. q \<in> set (ends a s p) \<longrightarrow> p \<le> length s \<longrightarrow> q \<le> length s"
    using ends_bounded by blast
  ultimately have "j \<in> set (iterate (length s) (ends a s) i)"
    using k m_StarStep.prems iterate_step [of "ends a s" "length s" k i j] by blast
  then show ?case by simp
next
  case (m_Plus a i k j)
  then have "k \<le> length s" using matches_bounds by blast
  with m_Plus show ?case by auto
qed auto

lemma test_upto_iff: "test_upto r s n \<longleftrightarrow> (\<exists>i \<le> n. ends r s i \<noteq> [])"
  by (induction n) (auto simp: le_Suc_eq)

lemma regex_test_iff:
  "regex_test r s \<longleftrightarrow> (\<exists>i j. i \<le> length s \<and> matches s r i j)"
proof
  assume "regex_test r s"
  then obtain i where "i \<le> length s" "ends r s i \<noteq> []"
    by (auto simp: regex_test_def test_upto_iff)
  then obtain j where "j \<in> set (ends r s i)" by (cases "ends r s i") auto
  with \<open>i \<le> length s\<close> show "\<exists>i j. i \<le> length s \<and> matches s r i j"
    using ends_sound by blast
next
  assume "\<exists>i j. i \<le> length s \<and> matches s r i j"
  then obtain i j where "i \<le> length s" "matches s r i j" by blast
  then have "j \<in> set (ends r s i)" by (simp add: ends_complete)
  with \<open>i \<le> length s\<close> show "regex_test r s"
    by (auto simp: regex_test_def test_upto_iff)
qed









section \<open>Progress and persistence: results\<close>

lemma reportProgress_calm:
  assumes "calm w"
  shows "reportProgress n w =
           w\<lparr>reader := (reader w)\<lparr>currentLine := n, saveProgressTimer := Some (nextHandle w)\<rparr>,
             pending := [(nextHandle w, clock w + 2000)],
             nextHandle := Suc (nextHandle w)\<rparr>"
proof (cases "pending w")
  case Nil
  then show ?thesis
    by (simp add: reportProgress_def setTimeout_def clearTimeout_def Let_def split: option.splits)
next
  case (Cons t ts)
  with assms have "ts = []" and "saveProgressTimer (reader w) = Some (fst t)"
    by (auto simp: calm_def split: list.splits)
  with Cons show ?thesis
    by (simp add: reportProgress_def setTimeout_def clearTimeout_def Let_def)
qed

lemma elapse_short:
  assumes "pending w = [t]" and "clock w + int d < snd t"
  shows "elapse d w = w\<lparr>clock := clock w + int d\<rparr>"
  using assms by (simp add: elapse_def Let_def)

lemma elapse_due:
  assumes "pending w = [t]" and "snd t \<le> clock w + int d"
  shows "elapse d w =
           (saveProgressNow (w\<lparr>pending := [], clock := snd t\<rparr>))\<lparr>clock := clock w + int d\<rparr>"
  using assms by (simp add: elapse_def Let_def fire_def saveProgressNow_def)





lemma elapse_nothing_pending:
  "pending w = [] \<Longrightarrow> elapse d w = w\<lparr>clock := clock w + int d\<rparr>"
  by (simp add: elapse_def)

lemma calm_elapse: "calm w \<Longrightarrow> calm (elapse d w)"
proof (cases "pending w")
  case Nil
  then show ?thesis by (simp add: elapse_nothing_pending calm_def)
next
  case (Cons t ts)
  assume "calm w"
  with Cons have p: "pending w = [t]" and c: "clock w < snd t"
    and h: "saveProgressTimer (reader w) = Some (fst t)"
    by (auto simp: calm_def split: list.splits)
  show ?thesis
  proof (cases "snd t \<le> clock w + int d")
    case True
    with p show ?thesis by (simp add: elapse_due calm_def saveProgressNow_def Let_def)
  next
    case False
    with p h show ?thesis by (simp add: elapse_short calm_def)
  qed
qed

lemma calm_reportProgress: "calm w \<Longrightarrow> calm (reportProgress n w)"
  by (simp add: reportProgress_calm calm_def)

lemma calm_onDidDispose: "calm w \<Longrightarrow> calm (onDidDispose w)"
  by (auto simp: onDidDispose_def saveProgressNow_def clearTimeout_def calm_def Let_def
      split: list.splits option.splits)

lemma saveProgressTimer_postMessage:
  "saveProgressTimer (postMessage m s) = saveProgressTimer s"
  by (simp add: postMessage_def)

lemma calm_reader:
  "saveProgressTimer r = saveProgressTimer (reader w) \<Longrightarrow> calm (w\<lparr>reader := r\<rparr>) = calm w"
  by (simp add: calm_def split: list.splits)

lemma saveProgressTimer_navigation:
  "saveProgressTimer (scrollUp step s) = saveProgressTimer s"
  "saveProgressTimer (scrollDown step s) = saveProgressTimer s"
  "saveProgressTimer (jumpToLine n s) = saveProgressTimer s"
  "saveProgressTimer (search t s) = saveProgressTimer s"
  "saveProgressTimer (sendChaptersToWebview s) = saveProgressTimer s"
  "saveProgressTimer (sendInitialContent s) = saveProgressTimer s"
  by (simp_all add: scrollUp_def scrollDown_def jumpToLine_def search_def updateWebview_def
      sendChaptersToWebview_def sendInitialContent_def showMessage_def
      saveProgressTimer_postMessage Let_def)

lemma calm_onDidReceiveMessage: "calm w \<Longrightarrow> calm (onDidReceiveMessage step c w)"
  by (cases c)
    (simp_all add: onDidReceiveMessage_def calm_reportProgress calm_reader
      saveProgressTimer_navigation)

text \<open>Every world that a session reaches from a start with no timer pending is calm.\<close>

lemma calm_run: "calm w \<Longrightarrow> calm (run step es w)"
proof (induction es arbitrary: w)
  case Nil
  then show ?case by simp
next
  case (Cons e es)
  then show ?case
    by (cases e) (simp_all add: calm_onDidReceiveMessage calm_elapse calm_onDidDispose)
qed

lemma calm_start: "pending w = [] \<Longrightarrow> calm w"
  by (simp add: calm_def)







section \<open>The shelf: results\<close>

lemma collectBooks_all:
  assumes "\<forall>file \<in> set entries.
             endsWith file (js ''.txt'') \<longrightarrow> stats fs (path_join dirPath file) \<noteq> None"
    and "\<forall>file \<in> set entries.
           endsWith file (js ''.txt'') \<and> isFile (the (stats fs (path_join dirPath file)))
           \<and> loadConfig fs (path_join dirPath file) = None \<longrightarrow>
           validTime (mtime (the (stats fs (path_join dirPath file))))"
  shows "collectBooks fs dirPath books entries =
           books @
           map (\<lambda>file. case loadConfig fs (path_join dirPath file) of
                          Some c \<Rightarrow> c
                        | None \<Rightarrow>
                            \<lparr>filePath = path_join dirPath file, fileName = file,
                             progress = 0, totalLines = 0,
                             lastReadTime =
                               ISO (mtime (the (stats fs (path_join dirPath file)))),
                             chapterPattern = None, bookmarks = None\<rparr>)
             (filter (\<lambda>file. endsWith file (js ''.txt'')
                        \<and> isFile (the (stats fs (path_join dirPath file)))) entries)"
  using assms
proof (induction entries arbitrary: books)
  case Nil
  show ?case by simp
next
  case (Cons f rest)
  then show ?case
    by (cases "loadConfig fs (path_join dirPath f)") (auto simp: Let_def toISOString_def)
qed

lemma mset_insert_by: "mset (insert_by cmp x ys) = add_mset x (mset ys)"
  by (induction ys) simp_all

lemma mset_insertion_sort: "mset (insertion_sort cmp xs) = mset xs"
  by (induction xs) (simp_all add: insertion_sort_def mset_insert_by)

lemma set_insertion_sort: "set (insertion_sort cmp xs) = set xs"
  using mset_insertion_sort [of cmp xs] by (metis set_mset_mset)

text \<open>
  Of \<open><CF\<close>, \<open>=CF\<close> and \<open>>CF\<close> at most one holds, and one does unless the comparator gives
  NaN.
\<close>

lemma CF_total:
  "cmp a b \<noteq> None \<Longrightarrow> lessCF cmp a b \<or> equalCF cmp a b \<or> greaterCF cmp a b"
  by (auto simp: lessCF_def equalCF_def greaterCF_def)

lemma CF_exclusive:
  "\<not> (lessCF cmp a b \<and> equalCF cmp a b)" "\<not> (lessCF cmp a b \<and> greaterCF cmp a b)"
  "\<not> (equalCF cmp a b \<and> greaterCF cmp a b)"
  by (auto simp: lessCF_def equalCF_def greaterCF_def split: option.splits)

text \<open>
  A consistent comparator orders the values like a total preorder: \<open>a >CF b\<close> and
  \<open>b <CF a\<close> are the same, and "may stand before" is transitive.
\<close>

lemma consistent_flip:
  assumes c: "consistent cmp S" and "a \<in> S" "b \<in> S" and g: "greaterCF cmp a b"
  shows "lessCF cmp b a"
proof -
  have n: "cmp b a \<noteq> None" using c assms(2,3) by (auto simp: consistent_def)
  have "\<not> equalCF cmp b a"
  proof
    assume "equalCF cmp b a"
    then have "equalCF cmp a b" using c assms(2,3) unfolding consistent_def by blast
    with g CF_exclusive(3) [of cmp a b] show False by simp
  qed
  moreover have "\<not> greaterCF cmp b a"
  proof
    assume "greaterCF cmp b a"
    with g have "greaterCF cmp a a" using c assms(2,3) unfolding consistent_def by blast
    moreover have "equalCF cmp a a" using c assms(2) unfolding consistent_def by blast
    ultimately show False by (auto simp: equalCF_def greaterCF_def)
  qed
  ultimately show ?thesis using CF_total [of cmp b a] n by blast
qed

lemma consistent_flip2:
  assumes c: "consistent cmp S" and "a \<in> S" "b \<in> S" and g: "lessCF cmp a b"
  shows "greaterCF cmp b a"
proof -
  have n: "cmp b a \<noteq> None" using c assms(2,3) by (auto simp: consistent_def)
  have "\<not> equalCF cmp b a"
  proof
    assume "equalCF cmp b a"
    then have "equalCF cmp a b" using c assms(2,3) unfolding consistent_def by blast
    with g CF_exclusive(1) [of cmp a b] show False by simp
  qed
  moreover have "\<not> lessCF cmp b a"
  proof
    assume "lessCF cmp b a"
    with g have "lessCF cmp a a" using c assms(2,3) unfolding consistent_def by blast
    moreover have "equalCF cmp a a" using c assms(2) unfolding consistent_def by blast
    ultimately show False by (auto simp: equalCF_def lessCF_def)
  qed
  ultimately show ?thesis using CF_total [of cmp b a] n by blast
qed

lemma consistent_trans:
  assumes c: "consistent cmp S" and s: "x \<in> S" "y \<in> S" "z \<in> S"
    and zy: "\<not> lessCF cmp y z" and yx: "\<not> lessCF cmp x y"
  shows "\<not> lessCF cmp x z"
proof
  assume xz: "lessCF cmp x z"
  have n: "cmp y z \<noteq> None" "cmp x y \<noteq> None" using c s by (auto simp: consistent_def)
  from zy CF_total [of cmp y z] n(1) have 1: "equalCF cmp y z \<or> greaterCF cmp y z" by blast
  from yx CF_total [of cmp x y] n(2) have 2: "equalCF cmp x y \<or> greaterCF cmp x y" by blast
  have zx: "greaterCF cmp z x" using consistent_flip2 [OF c s(1) s(3) xz] .
  have tE: "\<And>a b c. a \<in> S \<Longrightarrow> b \<in> S \<Longrightarrow> c \<in> S \<Longrightarrow>
               equalCF cmp a b \<Longrightarrow> equalCF cmp b c \<Longrightarrow> equalCF cmp a c"
    and tG: "\<And>a b c. a \<in> S \<Longrightarrow> b \<in> S \<Longrightarrow> c \<in> S \<Longrightarrow>
               greaterCF cmp a b \<Longrightarrow> greaterCF cmp b c \<Longrightarrow> greaterCF cmp a c"
    and sy: "\<And>a b. a \<in> S \<Longrightarrow> b \<in> S \<Longrightarrow> equalCF cmp a b \<Longrightarrow> equalCF cmp b a"
    using c unfolding consistent_def by blast+
  from 1 2 show False
  proof (elim disjE)
    assume "equalCF cmp y z" "equalCF cmp x y"
    then have "equalCF cmp x z" using tE s by blast
    with xz CF_exclusive(1) [of cmp x z] show False by simp
  next
    assume a: "equalCF cmp y z" "greaterCF cmp x y"
    from a(2) zx have "greaterCF cmp z y" using tG s by blast
    moreover have "equalCF cmp z y" using a(1) sy s by blast
    ultimately show False using CF_exclusive(3) [of cmp z y] by simp
  next
    assume a: "greaterCF cmp y z" "equalCF cmp x y"
    from zx a(1) have "greaterCF cmp y x" using tG s by blast
    moreover have "equalCF cmp y x" using a(2) sy s by blast
    ultimately show False using CF_exclusive(3) [of cmp y x] by simp
  next
    assume a: "greaterCF cmp y z" "greaterCF cmp x y"
    then have "greaterCF cmp x z" using tG s by blast
    with xz CF_exclusive(2) [of cmp x z] show False by simp
  qed
qed

text \<open>Insertion keeps the contract of the sort.\<close>

lemma sorted_insert_by:
  assumes c: "consistent cmp S" and "x \<in> S" and "set ys \<subseteq> S"
    and "sorted_wrt (\<lambda>a b. \<not> lessCF cmp b a) ys"
  shows "sorted_wrt (\<lambda>a b. \<not> lessCF cmp b a) (insert_by cmp x ys)"
  using assms(2-)
proof (induction ys)
  case Nil
  show ?case by simp
next
  case (Cons y ys)
  show ?case
  proof (cases "greaterCF cmp x y")
    case True
    then have yx: "\<not> lessCF cmp x y" using CF_exclusive(2) [of cmp x y] by auto
    have "set (insert_by cmp x ys) = insert x (set ys)"
      using mset_insert_by [of cmp x ys] by (metis set_mset_add_mset_insert set_mset_mset)
    with yx Cons True show ?thesis by simp
  next
    case False
    have xy: "\<not> lessCF cmp y x"
    proof
      assume "lessCF cmp y x"
      then have "greaterCF cmp x y" using consistent_flip2 [OF c, of y x] Cons.prems by simp
      with False show False by simp
    qed
    have "\<forall>z \<in> set ys. \<not> lessCF cmp z x"
    proof
      fix z assume z: "z \<in> set ys"
      with Cons.prems have "\<not> lessCF cmp z y" by simp
      with xy show "\<not> lessCF cmp z x"
        using consistent_trans [OF c, of z y x] Cons.prems z by auto
    qed
    with xy Cons.prems False show ?thesis by simp
  qed
qed

lemma sorted_insertion_sort:
  assumes "consistent cmp S" and "set xs \<subseteq> S"
  shows "sorted_wrt (\<lambda>a b. \<not> lessCF cmp b a) (insertion_sort cmp xs)"
  using assms(2)
proof (induction xs)
  case Nil
  show ?case by (simp add: insertion_sort_def)
next
  case (Cons x xs)
  then have "sorted_wrt (\<lambda>a b. \<not> lessCF cmp b a) (insertion_sort cmp xs)" by simp
  with Cons.prems show ?case
    using sorted_insert_by [OF assms(1), of x "insertion_sort cmp xs"]
    by (simp add: insertion_sort_def set_insertion_sort [unfolded insertion_sort_def])
qed

lemma insertion_sort_contract: "sort_contract insertion_sort"
  unfolding sort_contract_def
  using mset_insertion_sort sorted_insertion_sort by blast

text \<open>
  Where both times parse, the sign of the comparator is that of the exact difference:
  rounding keeps it.
\<close>

lemma compareBooks_dated:
  assumes "getTime (lastReadTime a) = Some ta" and "getTime (lastReadTime b) = Some tb"
  shows "lessCF compareBooks a b \<longleftrightarrow> tb < ta" and "equalCF compareBooks a b \<longleftrightarrow> tb = ta"
    and "greaterCF compareBooks a b \<longleftrightarrow> ta < tb" and "compareBooks a b \<noteq> None"
    and "newer_first a b \<longleftrightarrow> tb \<le> ta"
  using assms round_double_sign [of "tb - ta"]
  by (simp_all add: compareBooks_def lessCF_def equalCF_def greaterCF_def num_sub_def
      newer_first_def)

lemma compareBooks_consistent:
  assumes "\<forall>b \<in> S. getTime (lastReadTime b) \<noteq> None"
  shows "consistent compareBooks S"
proof -
  have t: "\<exists>t. getTime (lastReadTime b) = Some t" if "b \<in> S" for b
    using assms that by auto
  show ?thesis
    unfolding consistent_def
  proof (intro conjI ballI impI)
    fix a b assume "a \<in> S" "b \<in> S"
    then show "compareBooks a b \<noteq> None" using t compareBooks_dated(4) by blast
  next
    fix a assume "a \<in> S"
    then show "equalCF compareBooks a a" using t compareBooks_dated(2) by blast
  next
    fix a b assume "a \<in> S" "b \<in> S" "equalCF compareBooks a b"
    then show "equalCF compareBooks b a"
      using t [of a] t [of b] by (auto simp: compareBooks_dated(2))
  next
    fix a b c assume "a \<in> S" "b \<in> S" "c \<in> S" "equalCF compareBooks a b \<and> equalCF compareBooks b c"
    then show "equalCF compareBooks a c"
      using t [of a] t [of b] t [of c] by (auto simp: compareBooks_dated(2))
  next
    fix a b c assume "a \<in> S" "b \<in> S" "c \<in> S" "lessCF compareBooks a b \<and> lessCF compareBooks b c"
    then show "lessCF compareBooks a c"
      using t [of a] t [of b] t [of c] by (auto simp: compareBooks_dated(1))
  next
    fix a b c assume "a \<in> S" "b \<in> S" "c \<in> S"
      "greaterCF compareBooks a b \<and> greaterCF compareBooks b c"
    then show "greaterCF compareBooks a c"
      using t [of a] t [of b] t [of c] by (auto simp: compareBooks_dated(3))
  qed
qed

lemma sorted_newer_first:
  assumes "sort_contract arraySort" and "\<forall>b \<in> set xs. getTime (lastReadTime b) \<noteq> None"
  shows "sorted_wrt newer_first (arraySort compareBooks xs)"
proof -
  have m: "mset (arraySort compareBooks xs) = mset xs"
    using assms(1) unfolding sort_contract_def by blast
  then have e: "set (arraySort compareBooks xs) = set xs" by (metis set_mset_mset)
  have "consistent compareBooks (set xs)" using assms(2) by (rule compareBooks_consistent)
  then have o: "sorted_wrt (\<lambda>a b. \<not> lessCF compareBooks b a) (arraySort compareBooks xs)"
    using assms(1) unfolding sort_contract_def by blast
  show ?thesis
  proof (rule sorted_wrt_mono_rel [OF _ o])
    fix a b
    assume "a \<in> set (arraySort compareBooks xs)" "b \<in> set (arraySort compareBooks xs)"
      and n: "\<not> lessCF compareBooks b a"
    then have "a \<in> set xs" "b \<in> set xs" unfolding e by simp_all
    with assms(2) have "getTime (lastReadTime a) \<noteq> None" "getTime (lastReadTime b) \<noteq> None"
      by simp_all
    then obtain ta tb where "getTime (lastReadTime a) = Some ta"
      "getTime (lastReadTime b) = Some tb"
      by auto
    with n show "newer_first a b"
      using compareBooks_dated(1) [of b tb a ta] compareBooks_dated(5) [of a ta b tb] by simp
  qed
qed

text \<open>
  C7 (as the code has it). For a directory that can be read, when \<open>stat\<close> accepts every
  entry whose name ends with \<open>.txt\<close> (compared as it is, so \<open>c.TXT\<close> does not count) and
  the modification time of every such regular file without a config is a time of a
  \<open>Date\<close>, the result holds one config for each such entry that is a regular file, and
  nothing else: the sidecar's record where there is one, otherwise a default record
  with the modification time as \<open>lastReadTime\<close>. When every \<open>lastReadTime\<close> in it parses,
  the result is in descending order of that time. This holds with every sort that
  keeps the contract of \<open>Array.prototype.sort\<close>.
\<close>

theorem getAllBooksInDirectory_regular_txt:
  assumes "sort_contract arraySort"
    and "dirs fs dirPath = Some entries"
    and "\<forall>file \<in> set entries.
           endsWith file (js ''.txt'') \<longrightarrow> stats fs (path_join dirPath file) \<noteq> None"
    and "\<forall>file \<in> set entries.
           endsWith file (js ''.txt'') \<and> isFile (the (stats fs (path_join dirPath file)))
           \<and> loadConfig fs (path_join dirPath file) = None \<longrightarrow>
           validTime (mtime (the (stats fs (path_join dirPath file))))"
  shows "mset (getAllBooksInDirectory arraySort fs dirPath) =
           mset (map (\<lambda>file. case loadConfig fs (path_join dirPath file) of
                          Some c \<Rightarrow> c
                        | None \<Rightarrow>
                            \<lparr>filePath = path_join dirPath file, fileName = file,
                             progress = 0, totalLines = 0,
                             lastReadTime =
                               ISO (mtime (the (stats fs (path_join dirPath file)))),
                             chapterPattern = None, bookmarks = None\<rparr>)
             (filter (\<lambda>file. endsWith file (js ''.txt'')
                        \<and> isFile (the (stats fs (path_join dirPath file)))) entries))
         \<and> ((\<forall>b \<in> set (getAllBooksInDirectory arraySort fs dirPath).
                getTime (lastReadTime b) \<noteq> None) \<longrightarrow>
             sorted_wrt newer_first (getAllBooksInDirectory arraySort fs dirPath))"
    (is "_ = mset ?listed \<and> _")
proof -
  let ?books = "collectBooks fs dirPath [] entries"
  have g: "getAllBooksInDirectory arraySort fs dirPath = arraySort compareBooks ?books"
    using assms(2) by (simp add: getAllBooksInDirectory_def existsSync_def)
  have c: "?books = ?listed"
    using collectBooks_all [OF assms(3) assms(4), of "[]"] by simp
  have m: "mset (arraySort compareBooks ?books) = mset ?books"
    using assms(1) unfolding sort_contract_def by blast
  then have e: "set (arraySort compareBooks ?books) = set ?books" by (metis set_mset_mset)
  have 1: "mset (arraySort compareBooks ?books) = mset ?listed"
    unfolding m by (rule arg_cong [OF c])
  have 2: "sorted_wrt newer_first (arraySort compareBooks ?books)"
    if "\<forall>b \<in> set (arraySort compareBooks ?books). getTime (lastReadTime b) \<noteq> None"
  proof -
    from that have "\<forall>b \<in> set ?books. getTime (lastReadTime b) \<noteq> None" unfolding e .
    then show ?thesis by (rule sorted_newer_first [OF assms(1)])
  qed
  from 1 2 show ?thesis unfolding g by blast
qed

text \<open>Strings written with \<open>js\<close> are equal only when they are spelled the same.\<close>

lemma unat_of_char: "unat (of_char c :: 16 word) = of_char c"
proof -
  have "(of_char c :: nat) mod 256 = of_char c" by simp
  then have "(of_char c :: nat) < 256" by (metis mod_less_divisor zero_less_numeral)
  then have l: "(of_char c :: nat) < 2 ^ 16" by (rule less_trans) simp
  have "(of_char c :: 16 word) = of_nat (of_char c)" by (simp add: of_nat_of_char)
  then have "unat (of_char c :: 16 word) = (of_char c :: nat) mod 2 ^ 16"
    by (simp add: unat_of_nat)
  with l show ?thesis by simp
qed

lemma of_char_word_eq: "(of_char c :: 16 word) = of_char d \<longleftrightarrow> c = d"
proof
  assume "(of_char c :: 16 word) = of_char d"
  then have "unat (of_char c :: 16 word) = unat (of_char d :: 16 word)" by simp
  then have "(of_char c :: nat) = of_char d" by (simp only: unat_of_char)
  then show "c = d" by simp
qed simp

lemma js_eq: "js a = js b \<longleftrightarrow> a = b"
  unfolding js_def by (rule inj_map_eq_map) (simp add: inj_on_def of_char_word_eq)

lemmas path_eval =
  getConfigPath_def path_join_def path_normalize_def path_dirname_def path_basename_def
  js_def slash_def endsWith_def

lemma books_paths:
  "path_join (js ''/books'') (js ''a.txt'') = js ''/books/a.txt''"
  "path_join (js ''/books'') (js ''b.txt'') = js ''/books/b.txt''"
  "path_join (js ''/books'') (js ''d.txt'') = js ''/books/d.txt''"
  "path_join (js ''/books'') (js ''notes.txt'') = js ''/books/notes.txt''"
  "getConfigPath (js ''/books/a.txt'') = js ''/books/a.json''"
  "getConfigPath (js ''/books/b.txt'') = js ''/books/b.json''"
  "getConfigPath (js ''/books/d.txt'') = js ''/books/d.json''"
  by (simp_all add: path_eval)

lemma books_suffixes:
  "endsWith (js ''a.txt'') (js ''.txt'')" "\<not> endsWith (js ''b.md'') (js ''.txt'')"
  "\<not> endsWith (js ''c.TXT'') (js ''.txt'')" "endsWith (js ''d.txt'') (js ''.txt'')"
  "endsWith (js ''notes.txt'') (js ''.txt'')" "endsWith (js ''b.txt'') (js ''.txt'')"
  by (simp_all add: endsWith_def js_def)

lemmas books_eval =
  existsSync_def loadConfig_def books_paths books_suffixes js_eq Let_def

theorem getAllBooksInDirectory_regular_txt_witness:
  "mset (getAllBooksInDirectory insertion_sort shelf_disk (js ''/books'')) =
     {#\<lparr>filePath = js ''/books/a.txt'', fileName = js ''a.txt'', progress = 0,
        totalLines = 0, lastReadTime = ISO 500, chapterPattern = None, bookmarks = None\<rparr>,
       \<lparr>filePath = js ''/books/d.txt'', fileName = js ''d.txt'', progress = 3,
        totalLines = 40, lastReadTime = ISO 9000, chapterPattern = None, bookmarks = None\<rparr>#}
   \<and> sorted_wrt newer_first (getAllBooksInDirectory insertion_sort shelf_disk (js ''/books''))"
proof -
  have d: "dirs shelf_disk (js ''/books'') =
             Some [js ''a.txt'', js ''b.md'', js ''c.TXT'', js ''d.txt'']"
    by (simp add: shelf_disk_def)
  have s: "\<forall>f \<in> set [js ''a.txt'', js ''b.md'', js ''c.TXT'', js ''d.txt''].
             endsWith f (js ''.txt'') \<longrightarrow> stats shelf_disk (path_join (js ''/books'') f) \<noteq> None"
    by (simp add: shelf_disk_def books_eval)
  have v: "\<forall>f \<in> set [js ''a.txt'', js ''b.md'', js ''c.TXT'', js ''d.txt''].
             endsWith f (js ''.txt'')
             \<and> isFile (the (stats shelf_disk (path_join (js ''/books'') f)))
             \<and> loadConfig shelf_disk (path_join (js ''/books'') f) = None \<longrightarrow>
             validTime (mtime (the (stats shelf_disk (path_join (js ''/books'') f))))"
    by (simp add: shelf_disk_def books_eval validTime_def)
  have m: "map (\<lambda>f. case loadConfig shelf_disk (path_join (js ''/books'') f) of
                          Some c \<Rightarrow> c
                        | None \<Rightarrow>
                            \<lparr>filePath = path_join (js ''/books'') f, fileName = f,
                             progress = 0, totalLines = 0,
                             lastReadTime =
                               ISO (mtime (the (stats shelf_disk (path_join (js ''/books'') f)))),
                             chapterPattern = None, bookmarks = None\<rparr>)
             (filter (\<lambda>f. endsWith f (js ''.txt'')
                        \<and> isFile (the (stats shelf_disk (path_join (js ''/books'') f))))
                [js ''a.txt'', js ''b.md'', js ''c.TXT'', js ''d.txt'']) =
      [\<lparr>filePath = js ''/books/a.txt'', fileName = js ''a.txt'', progress = 0,
        totalLines = 0, lastReadTime = ISO 500, chapterPattern = None, bookmarks = None\<rparr>,
       \<lparr>filePath = js ''/books/d.txt'', fileName = js ''d.txt'', progress = 3,
        totalLines = 40, lastReadTime = ISO 9000, chapterPattern = None, bookmarks = None\<rparr>]"
    by (simp add: shelf_disk_def books_eval)
  from getAllBooksInDirectory_regular_txt [OF insertion_sort_contract d s v]
  have r: "mset (getAllBooksInDirectory insertion_sort shelf_disk (js ''/books'')) =
     {#\<lparr>filePath = js ''/books/a.txt'', fileName = js ''a.txt'', progress = 0,
        totalLines = 0, lastReadTime = ISO 500, chapterPattern = None, bookmarks = None\<rparr>,
       \<lparr>filePath = js ''/books/d.txt'', fileName = js ''d.txt'', progress = 3,
        totalLines = 40, lastReadTime = ISO 9000, chapterPattern = None, bookmarks = None\<rparr>#}"
    and o: "(\<forall>b \<in> set (getAllBooksInDirectory insertion_sort shelf_disk (js ''/books'')).
                getTime (lastReadTime b) \<noteq> None) \<longrightarrow>
             sorted_wrt newer_first
               (getAllBooksInDirectory insertion_sort shelf_disk (js ''/books''))"
    unfolding m by simp_all
  from r have "set_mset (mset (getAllBooksInDirectory insertion_sort shelf_disk (js ''/books''))) =
     {\<lparr>filePath = js ''/books/a.txt'', fileName = js ''a.txt'', progress = 0,
        totalLines = 0, lastReadTime = ISO 500, chapterPattern = None, bookmarks = None\<rparr>,
       \<lparr>filePath = js ''/books/d.txt'', fileName = js ''d.txt'', progress = 3,
        totalLines = 40, lastReadTime = ISO 9000, chapterPattern = None, bookmarks = None\<rparr>}"
    by simp
  then have "\<forall>b \<in> set (getAllBooksInDirectory insertion_sort shelf_disk (js ''/books'')).
                getTime (lastReadTime b) \<noteq> None"
    by (simp add: getTime_def validTime_def)
  with r o show ?thesis by simp
qed

text \<open>
  An entry that ends with \<open>.txt\<close> and is a folder gets no config: of \<open>a.txt\<close> and the
  folder \<open>notes.txt\<close> only the first is listed.
\<close>

theorem getAllBooksInDirectory_counterexample:
  "dirs folder_disk (js ''/books'') = Some [js ''a.txt'', js ''notes.txt'']
   \<and> endsWith (js ''a.txt'') (js ''.txt'') \<and> endsWith (js ''notes.txt'') (js ''.txt'')
   \<and> map fileName (getAllBooksInDirectory insertion_sort folder_disk (js ''/books''))
       = [js ''a.txt'']"
  by (simp add: getAllBooksInDirectory_def folder_disk_def books_eval insertion_sort_def
      toISOString_def validTime_def)

text \<open>The sort has no part in it: one book can be arranged in one way only.\<close>

lemma folder_disk_every_sort:
  assumes "sort_contract arraySort"
  shows "map fileName (getAllBooksInDirectory arraySort folder_disk (js ''/books''))
           = [js ''a.txt'']"
proof -
  have c: "collectBooks folder_disk (js ''/books'') [] [js ''a.txt'', js ''notes.txt''] =
      [\<lparr>filePath = js ''/books/a.txt'', fileName = js ''a.txt'', progress = 0,
        totalLines = 0, lastReadTime = ISO 500, chapterPattern = None, bookmarks = None\<rparr>]"
    by (simp add: folder_disk_def books_eval toISOString_def validTime_def)
  have "mset (arraySort compareBooks
           (collectBooks folder_disk (js ''/books'') [] [js ''a.txt'', js ''notes.txt''])) =
        mset (collectBooks folder_disk (js ''/books'') [] [js ''a.txt'', js ''notes.txt''])"
    using assms unfolding sort_contract_def by blast
  then have a: "arraySort compareBooks
           (collectBooks folder_disk (js ''/books'') [] [js ''a.txt'', js ''notes.txt'']) =
      [\<lparr>filePath = js ''/books/a.txt'', fileName = js ''a.txt'', progress = 0,
        totalLines = 0, lastReadTime = ISO 500, chapterPattern = None, bookmarks = None\<rparr>]"
    unfolding c by (simp add: mset_single_iff_right)
  have d: "dirs folder_disk (js ''/books'') = Some [js ''a.txt'', js ''notes.txt'']"
    by (simp add: folder_disk_def js_eq)
  have "getAllBooksInDirectory arraySort folder_disk (js ''/books'') =
      arraySort compareBooks
        (collectBooks folder_disk (js ''/books'') [] [js ''a.txt'', js ''notes.txt''])"
    using d by (simp add: getAllBooksInDirectory_def existsSync_def)
  then show ?thesis unfolding a by simp
qed

text \<open>
  A modification time past the last time of a \<open>Date\<close> ends the enumeration: of \<open>a.txt\<close>,
  \<open>b.txt\<close> and \<open>d.txt\<close>, all regular files that \<open>stat\<close> accepts, only \<open>a.txt\<close> is listed when
  \<open>b.txt\<close> carries such a time.
\<close>

lemma late_disk_listing:
  "map fileName (getAllBooksInDirectory insertion_sort late_disk (js ''/books''))
     = [js ''a.txt'']"
  by (simp add: getAllBooksInDirectory_def late_disk_def books_eval insertion_sort_def
      toISOString_def validTime_def)

section \<open>The sidecar path: results\<close>

lemma absolute_simps:
  "absolute [] = []" "absolute (c # cs) = slash # c @ absolute cs"
  "absolute (cs @ ds) = absolute cs @ absolute ds"
  by (simp_all add: absolute_def)

lemma split_free: "sep \<notin> set c \<Longrightarrow> split sep c = [c]"
  by (induction c) auto

lemma split_append_sep:
  "sep \<notin> set c \<Longrightarrow> split sep (c @ sep # rest) = c # split sep rest"
  by (induction c) auto

lemma split_absolute:
  "\<forall>c \<in> set comps. slash \<notin> set c \<Longrightarrow> split slash (absolute comps) = [] # comps"
proof (induction comps)
  case Nil
  show ?case by (simp add: absolute_simps)
next
  case (Cons c cs)
  show ?case
  proof (cases cs)
    case Nil
    with Cons.prems show ?thesis by (simp add: absolute_simps split_free)
  next
    case (Cons d ds)
    from Cons.prems have f: "slash \<notin> set c" by simp
    from Cons.prems Cons.IH have "split slash (absolute cs) = [] # cs" by simp
    then have "split slash (slash # d @ absolute ds) = [] # cs"
      by (simp add: Cons absolute_simps)
    then have "split slash (d @ absolute ds) = cs" by simp
    with f show ?thesis
      by (simp add: Cons absolute_simps split_append_sep)
  qed
qed

lemma absolute_inj:
  assumes "absolute cs = absolute ds"
    and "\<forall>c \<in> set cs. slash \<notin> set c" and "\<forall>c \<in> set ds. slash \<notin> set c"
  shows "cs = ds"
proof -
  have "[] # cs = split slash (absolute cs)"
    using split_absolute [OF assms(2)] by simp
  also have "\<dots> = split slash (absolute ds)"
    by (simp only: assms(1))
  also have "\<dots> = [] # ds"
    using split_absolute [OF assms(3)] by simp
  finally show ?thesis by simp
qed

lemma split_Cons_other:
  assumes "c \<noteq> sep"
  obtains piece pieces where "split sep p = piece # pieces"
    and "split sep (c # p) = (c # piece) # pieces"
proof (cases "split sep p")
  case Nil
  then show ?thesis using split_not_Nil [of sep p] by simp
next
  case (Cons piece pieces)
  with assms that show ?thesis by simp
qed

lemma split_pieces_free: "\<forall>x \<in> set (split sep p). sep \<notin> set x"
proof (induction p)
  case Nil
  show ?case by simp
next
  case (Cons c p)
  show ?case
  proof (cases "c = sep")
    case True
    with Cons show ?thesis by simp
  next
    case False
    then obtain piece pieces where "split sep p = piece # pieces"
      and "split sep (c # p) = (c # piece) # pieces"
      by (rule split_Cons_other)
    with Cons False show ?thesis by simp
  qed
qed

lemma join_with_Cons:
  "join_with sep (x # xs) = (if xs = [] then x else x @ sep @ join_with sep xs)"
  by (cases xs) simp_all

lemma join_split: "join_with [sep] (split sep p) = p"
proof (induction p)
  case Nil
  show ?case by simp
next
  case (Cons c p)
  show ?case
  proof (cases "c = sep")
    case True
    with Cons show ?thesis by (simp add: join_with_Cons split_not_Nil)
  next
    case False
    then obtain piece pieces where "split sep p = piece # pieces"
      and "split sep (c # p) = (c # piece) # pieces"
      by (rule split_Cons_other)
    with Cons show ?thesis by (auto simp: join_with_Cons split: if_splits)
  qed
qed

lemma join_absolute: "comps \<noteq> [] \<Longrightarrow> slash # join_with [slash] comps = absolute comps"
proof (induction comps)
  case Nil
  then show ?case by simp
next
  case (Cons c cs)
  then show ?case by (cases cs) (simp_all add: absolute_simps)
qed

lemma normalized_pathD:
  assumes "normalized_path p"
  obtains comps where "comps \<noteq> []" and "\<forall>c \<in> set comps. plain_component c"
    and "\<forall>c \<in> set comps. slash \<notin> set c" and "p = absolute comps"
proof -
  from assms obtain comps where s: "split slash p = [] # comps" and n: "comps \<noteq> []"
    and pl: "list_all plain_component comps"
    by (auto simp: normalized_path_def split: list.splits)
  have "\<forall>c \<in> set comps. slash \<notin> set c"
    using split_pieces_free [of slash p] s by simp
  moreover have "p = absolute comps"
    using join_split [of slash p] n unfolding s
    by (cases comps) (simp_all add: join_absolute [symmetric])
  ultimately show ?thesis using n pl that by (simp add: list_all_iff)
qed

lemma js_slash: "js ''/'' = [slash]"
  by (simp add: js_def slash_def)

lemma rev_ends_free:
  assumes "f \<noteq> []" and "slash \<notin> set f"
  shows "dropWhile (\<lambda>c. c = slash) (rev f @ rest) = rev f @ rest"
    and "takeWhile (\<lambda>c. c = slash) (rev f @ rest) = []"
    and "dropWhile (\<lambda>c. c \<noteq> slash) (rev f @ slash # rest) = slash # rest"
    and "takeWhile (\<lambda>c. c \<noteq> slash) (rev f @ slash # rest) = rev f"
    and "dropWhile (\<lambda>c. c \<noteq> slash) (rev f) = []"
proof -
  from assms(1) obtain ys y where f: "f = ys @ [y]"
    by (cases f rule: rev_cases) auto
  with assms(2) have x: "y \<noteq> slash" by auto
  from f have r: "rev f = y # rev ys" by simp
  show "dropWhile (\<lambda>c. c = slash) (rev f @ rest) = rev f @ rest"
    and "takeWhile (\<lambda>c. c = slash) (rev f @ rest) = []"
    using x by (simp_all add: r)
  have a: "\<forall>c \<in> set (rev f). c \<noteq> slash" using assms(2) by auto
  then show "dropWhile (\<lambda>c. c \<noteq> slash) (rev f @ slash # rest) = slash # rest"
    by (simp add: dropWhile_append3)
  from a show "takeWhile (\<lambda>c. c \<noteq> slash) (rev f @ slash # rest) = rev f"
    by (simp add: takeWhile_tail)
  from a show "dropWhile (\<lambda>c. c \<noteq> slash) (rev f) = []"
    by simp
qed

lemma dirname_absolute:
  assumes "f \<noteq> []" and "slash \<notin> set f" and "\<forall>d \<in> set ds. d \<noteq> []"
  shows "path_dirname (absolute (ds @ [f])) = (if ds = [] then js ''/'' else absolute ds)"
proof (cases ds)
  case Nil
  then show ?thesis
    using rev_ends_free(1) [OF assms(1,2), of "[]"] rev_ends_free(5) [OF assms(1,2)]
    by (simp add: path_dirname_def absolute_simps Let_def)
next
  case (Cons d ds')
  with assms(3) have d: "d \<noteq> []" by simp
  have t: "rev (tl (absolute (ds @ [f]))) = rev f @ slash # rev (d @ absolute ds')"
    by (simp add: Cons absolute_simps)
  show ?thesis
    unfolding path_dirname_def t Let_def
      rev_ends_free(1) [OF assms(1,2)] rev_ends_free(3) [OF assms(1,2)]
    using d by (simp add: Cons absolute_simps)
qed

lemma basename_absolute:
  assumes "f \<noteq> []" and "slash \<notin> set f"
  shows "path_basename (absolute (ds @ [f])) (js ''.txt'') = strip_txt f"
proof -
  let ?p = "absolute (ds @ [f])"
  have r: "rev ?p = rev f @ slash # rev (absolute ds)"
    by (simp add: absolute_simps)
  have ne: "js ''.txt'' \<noteq> ?p"
  proof
    assume "js ''.txt'' = ?p"
    then have "hd (js ''.txt'') = hd ?p" by simp
    moreover have "hd ?p = slash" by (cases ds) (simp_all add: absolute_simps)
    ultimately show False by (simp add: js_def slash_def)
  qed
  have nn: "rev f @ slash # rev (absolute ds) \<noteq> []" by simp
  have len: "length ?p = length (absolute ds) + Suc (length f)"
    by (simp add: absolute_simps)
  show ?thesis
    unfolding path_basename_def r Let_def
      rev_ends_free(1) [OF assms] rev_ends_free(2) [OF assms] rev_ends_free(4) [OF assms]
    using ne nn len by (auto simp: strip_txt_def)
qed

lemma normalizeString_plain:
  "\<forall>c \<in> set comps. plain_component c \<Longrightarrow> normalizeString b res comps = res @ comps"
  by (induction comps arbitrary: res) (simp_all add: plain_component_def)

lemma last_absolute:
  assumes "comps \<noteq> []" and "\<forall>c \<in> set comps. c \<noteq> [] \<and> slash \<notin> set c"
  shows "last (absolute comps) \<noteq> slash"
proof -
  from assms(1) obtain cs c where c: "comps = cs @ [c]"
    by (cases comps rule: rev_cases) auto
  with assms(2) have "c \<noteq> []" and "slash \<notin> set c" by simp_all
  then have "last c \<noteq> slash" using last_in_set by metis
  with \<open>c \<noteq> []\<close> show ?thesis by (simp add: c absolute_simps)
qed

lemma normalize_absolute:
  assumes "comps \<noteq> []" and "\<forall>c \<in> set comps. plain_component c"
    and "\<forall>c \<in> set comps. slash \<notin> set c"
  shows "path_normalize (absolute comps) = absolute comps"
proof -
  from assms(1) obtain c cs where c: "comps = c # cs" by (cases comps) auto
  with assms(2) have cn: "c \<noteq> []" by (simp add: plain_component_def)
  have hd: "hd (absolute comps) = slash" and ne: "absolute comps \<noteq> []"
    by (simp_all add: c absolute_simps)
  have la: "last (absolute comps) \<noteq> slash"
    using assms by (intro last_absolute) (auto simp: plain_component_def)
  have sp: "split slash (absolute comps) = [] # comps"
    using assms(3) by (rule split_absolute)
  have q: "slash # join_with [slash] comps = absolute comps"
    using assms(1) by (rule join_absolute)
  have qn: "join_with [slash] comps \<noteq> []"
    using cn by (simp add: c join_with_Cons)
  show ?thesis
    unfolding path_normalize_def Let_def sp
    using hd ne la q qn assms(2) by (simp add: normalizeString_plain)
qed

lemma join_directory:
  assumes "\<forall>c \<in> set (ds @ [n]). plain_component c"
    and "\<forall>c \<in> set (ds @ [n]). slash \<notin> set c"
  shows "path_join (if ds = [] then js ''/'' else absolute ds) n = absolute (ds @ [n])"
proof -
  from assms(1) have nn: "n \<noteq> []" by (simp add: plain_component_def)
  have norm: "path_normalize (absolute (ds @ [n])) = absolute (ds @ [n])"
    using assms by (intro normalize_absolute) simp_all
  show ?thesis
  proof (cases ds)
    case Nil
    have la: "last n \<noteq> slash" using nn assms(2) last_in_set by fastforce
    have sp: "split slash n = [n]" using assms(2) by (simp add: split_free)
    have pl: "n \<noteq> js ''.''" "n \<noteq> js ''..''"
      using assms(1) by (simp_all add: plain_component_def)
    show ?thesis
      using nn la sp pl
      by (simp add: Nil path_join_def js_slash path_normalize_def absolute_simps Let_def)
  next
    case (Cons d ds')
    then have "absolute ds \<noteq> []" by (simp add: absolute_simps)
    with nn norm show ?thesis
      by (simp add: Cons path_join_def absolute_simps)
  qed
qed

lemma sidecar_name:
  assumes "slash \<notin> set f"
  shows "plain_component (strip_txt f @ js ''.json'')"
    and "slash \<notin> set (strip_txt f @ js ''.json'')"
proof -
  have "strip_txt f @ js ''.json'' \<noteq> js ''.''"
  proof
    assume "strip_txt f @ js ''.json'' = js ''.''"
    then have "length (strip_txt f @ js ''.json'') = length (js ''.'')" by (simp only:)
    then show False by (simp add: js_def)
  qed
  moreover have "strip_txt f @ js ''.json'' \<noteq> js ''..''"
  proof
    assume "strip_txt f @ js ''.json'' = js ''..''"
    then have "length (strip_txt f @ js ''.json'') = length (js ''..'')" by (simp only:)
    then show False by (simp add: js_def)
  qed
  moreover have "strip_txt f @ js ''.json'' \<noteq> []" by (simp add: js_def)
  ultimately show "plain_component (strip_txt f @ js ''.json'')"
    by (simp add: plain_component_def)
  have "set (strip_txt f) \<subseteq> set f"
    by (auto simp: strip_txt_def dest: in_set_takeD)
  moreover have "slash \<notin> set (js ''.json'')" by (simp add: js_def slash_def)
  ultimately show "slash \<notin> set (strip_txt f @ js ''.json'')"
    using assms by auto
qed

lemma getConfigPath_absolute:
  assumes "\<forall>c \<in> set (ds @ [f]). plain_component c"
    and "\<forall>c \<in> set (ds @ [f]). slash \<notin> set c"
  shows "getConfigPath (absolute (ds @ [f])) = absolute (ds @ [strip_txt f @ js ''.json''])"
proof -
  from assms have f: "f \<noteq> []" "slash \<notin> set f" and d: "\<forall>d \<in> set ds. d \<noteq> []"
    by (auto simp: plain_component_def)
  have "\<forall>c \<in> set (ds @ [strip_txt f @ js ''.json'']). plain_component c"
    and "\<forall>c \<in> set (ds @ [strip_txt f @ js ''.json'']). slash \<notin> set c"
    using assms sidecar_name [OF f(2)] by auto
  then have "path_join (if ds = [] then js ''/'' else absolute ds)
               (strip_txt f @ js ''.json'') = absolute (ds @ [strip_txt f @ js ''.json''])"
    by (rule join_directory)
  then show ?thesis
    by (simp add: getConfigPath_def Let_def dirname_absolute [OF f d] basename_absolute [OF f])
qed

lemma directory_inj:
  assumes "(if ds = [] then js ''/'' else absolute ds) =
           (if es = [] then js ''/'' else absolute es)"
    and "\<forall>c \<in> set ds. c \<noteq> [] \<and> slash \<notin> set c"
    and "\<forall>c \<in> set es. c \<noteq> [] \<and> slash \<notin> set c"
  shows "ds = es"
proof (cases ds)
  case Nil
  show ?thesis
  proof (cases es)
    case (Cons e es')
    with assms(1,3) Nil show ?thesis by (simp add: js_slash absolute_simps)
  qed (simp add: Nil)
next
  case (Cons d ds')
  show ?thesis
  proof (cases es)
    case Nil
    with assms(1,2) Cons show ?thesis by (simp add: js_slash absolute_simps)
  next
    case es: (Cons e es')
    with assms Cons have "absolute ds = absolute es" by simp
    then show ?thesis using assms(2,3) by (intro absolute_inj) simp_all
  qed
qed

text \<open>
  C2 (as the code has it). For absolute, normalised source paths the sidecar path is the
  directory of the source, a separator, the file name without a final \<open>.txt\<close>, and
  \<open>.json\<close>. Two sources have the same sidecar exactly when they lie in the same
  directory and their names agree once a final \<open>.txt\<close> is taken off: sources in
  different directories never share a sidecar, and in one directory \<open>a.txt\<close> and \<open>a\<close>
  do.
\<close>

theorem getConfigPath_collisions:
  assumes "normalized_path p" and "normalized_path q"
  shows "getConfigPath p =
           (if path_dirname p = js ''/'' then [] else path_dirname p)
           @ [slash] @ path_basename p (js ''.txt'') @ js ''.json''
         \<and> (getConfigPath p = getConfigPath q \<longleftrightarrow>
              path_dirname p = path_dirname q
              \<and> path_basename p (js ''.txt'') = path_basename q (js ''.txt''))
         \<and> (path_dirname p \<noteq> path_dirname q \<longrightarrow> getConfigPath p \<noteq> getConfigPath q)"
proof -
  from assms(1) obtain cs where cs: "cs \<noteq> []" "\<forall>c \<in> set cs. plain_component c"
    "\<forall>c \<in> set cs. slash \<notin> set c" "p = absolute cs"
    by (rule normalized_pathD)
  from assms(2) obtain es where es: "es \<noteq> []" "\<forall>c \<in> set es. plain_component c"
    "\<forall>c \<in> set es. slash \<notin> set c" "q = absolute es"
    by (rule normalized_pathD)
  from cs(1) obtain ds f where c: "cs = ds @ [f]" by (cases cs rule: rev_cases) auto
  from es(1) obtain gs g where e: "es = gs @ [g]" by (cases es rule: rev_cases) auto
  from cs c have f: "f \<noteq> []" "slash \<notin> set f" and d: "\<forall>d \<in> set ds. d \<noteq> [] \<and> slash \<notin> set d"
    by (auto simp: plain_component_def)
  from es e have g: "g \<noteq> []" "slash \<notin> set g" and h: "\<forall>d \<in> set gs. d \<noteq> [] \<and> slash \<notin> set d"
    by (auto simp: plain_component_def)
  have dp: "path_dirname p = (if ds = [] then js ''/'' else absolute ds)"
    unfolding cs(4) c using f d by (intro dirname_absolute) simp_all
  have dq: "path_dirname q = (if gs = [] then js ''/'' else absolute gs)"
    unfolding es(4) e using g h by (intro dirname_absolute) simp_all
  have bp: "path_basename p (js ''.txt'') = strip_txt f"
    unfolding cs(4) c using f by (rule basename_absolute)
  have bq: "path_basename q (js ''.txt'') = strip_txt g"
    unfolding es(4) e using g by (rule basename_absolute)
  have gp: "getConfigPath p = absolute (ds @ [strip_txt f @ js ''.json''])"
    unfolding cs(4) c using cs(2,3) unfolding c by (rule getConfigPath_absolute)
  have gq: "getConfigPath q = absolute (gs @ [strip_txt g @ js ''.json''])"
    unfolding es(4) e using es(2,3) unfolding e by (rule getConfigPath_absolute)
  have shape: "getConfigPath p =
           (if path_dirname p = js ''/'' then [] else path_dirname p)
           @ [slash] @ path_basename p (js ''.txt'') @ js ''.json''"
  proof (cases ds)
    case Nil
    then show ?thesis by (simp add: gp dp bp absolute_simps)
  next
    case (Cons d' ds')
    with d have "d' \<noteq> []" by simp
    then have "absolute ds \<noteq> js ''/''" by (simp add: Cons absolute_simps js_slash)
    then show ?thesis by (simp add: gp dp bp absolute_simps Cons)
  qed
  have iff: "getConfigPath p = getConfigPath q \<longleftrightarrow>
              path_dirname p = path_dirname q
              \<and> path_basename p (js ''.txt'') = path_basename q (js ''.txt'')"
  proof
    assume "getConfigPath p = getConfigPath q"
    then have "absolute (ds @ [strip_txt f @ js ''.json''])
               = absolute (gs @ [strip_txt g @ js ''.json''])"
      by (simp only: gp gq)
    then have "ds @ [strip_txt f @ js ''.json''] = gs @ [strip_txt g @ js ''.json'']"
      using d h sidecar_name(2) [OF f(2)] sidecar_name(2) [OF g(2)]
      by (intro absolute_inj) auto
    then show "path_dirname p = path_dirname q
              \<and> path_basename p (js ''.txt'') = path_basename q (js ''.txt'')"
      by (simp add: dp dq bp bq)
  next
    assume a: "path_dirname p = path_dirname q
              \<and> path_basename p (js ''.txt'') = path_basename q (js ''.txt'')"
    then have "ds = gs" using d h unfolding dp dq by (intro directory_inj) simp_all
    with a show "getConfigPath p = getConfigPath q" by (simp add: gp gq bp bq)
  qed
  from shape iff show ?thesis by simp
qed

lemma normalized_examples:
  "normalized_path (js ''/books/a.txt'')" "normalized_path (js ''/books/a'')"
  "normalized_path (js ''/other/a.txt'')" "normalized_path (js ''/books/a.md'')"
  by (simp_all add: normalized_path_def plain_component_def js_def slash_def)

theorem getConfigPath_collisions_witness:
  "getConfigPath (js ''/books/a.txt'') = js ''/books/a.json''
   \<and> getConfigPath (js ''/books/a'') = getConfigPath (js ''/books/a.txt'')
   \<and> getConfigPath (js ''/other/a.txt'') \<noteq> getConfigPath (js ''/books/a.txt'')"
proof -
  have d: "path_dirname (js ''/books/a.txt'') = js ''/books''"
    "path_dirname (js ''/books/a'') = js ''/books''"
    "path_dirname (js ''/other/a.txt'') = js ''/other''"
    and b: "path_basename (js ''/books/a.txt'') (js ''.txt'') = js ''a''"
    "path_basename (js ''/books/a'') (js ''.txt'') = js ''a''"
    "path_basename (js ''/other/a.txt'') (js ''.txt'') = js ''a''"
    by (simp_all add: path_dirname_def path_basename_def js_def slash_def endsWith_def)
  have n: "js ''/books'' \<noteq> js ''/''" "js ''/other'' \<noteq> js ''/books''"
    by (simp_all add: js_eq)
  from getConfigPath_collisions [OF normalized_examples(1) normalized_examples(2)]
    getConfigPath_collisions [OF normalized_examples(2) normalized_examples(1)]
    getConfigPath_collisions [OF normalized_examples(3) normalized_examples(1)]
  show ?thesis
    unfolding d b using n by (simp add: js_def slash_def)
qed

text \<open>
  No other extension is taken off: \<open>a.txt\<close> and \<open>a.md\<close> in one directory have the
  sidecars \<open>a.json\<close> and \<open>a.md.json\<close>.
\<close>

theorem getConfigPath_counterexample:
  "path_dirname (js ''/books/a.txt'') = path_dirname (js ''/books/a.md'')
   \<and> getConfigPath (js ''/books/a.txt'') = js ''/books/a.json''
   \<and> getConfigPath (js ''/books/a.md'') = js ''/books/a.md.json''
   \<and> getConfigPath (js ''/books/a.txt'') \<noteq> getConfigPath (js ''/books/a.md'')"
  by (simp add: path_eval)

end
